theory Spec2Isabelle
  imports Complex_Main "HOL-Library.Log_Nat"
begin

section \<open>JavaScript values used by the screens\<close>

subsection \<open>Numbers\<close>

text \<open>
  \<^verbatim>\<open>Date.now()\<close> returns an integer number of milliseconds below \<open>2 ^ 53\<close>, and the
  difference of two such readings is an integer that a double holds exactly, so clock
  readings and \<^verbatim>\<open>elapsed\<close> are modelled as \<open>int\<close>. The progress estimate
  \<^verbatim>\<open>Math.floor((elapsed / 20000) * 90)\<close> is computed in binary64: the quotient is rounded
  to the nearest double (ties to even), then the product is rounded again, then floored.
  \<open>to_double\<close> is that rounding on the exact rational value, with a 53-bit significand and
  an unbounded exponent (no value of this program leaves the normal range).
\<close>

definition round_half_even :: "rat \<Rightarrow> int" where
  "round_half_even m =
     (let f = \<lfloor>m\<rfloor>; r = m - of_int f
      in if r < 1 / 2 then f else if 1 / 2 < r then f + 1 else if even f then f else f + 1)"

definition floor_log2 :: "rat \<Rightarrow> int" where
  "floor_log2 x = (if 1 \<le> x then bitlen \<lfloor>x\<rfloor> - 1 else - bitlen (\<lceil>1 / x\<rceil> - 1))"

definition round_pos :: "rat \<Rightarrow> rat" where
  "round_pos x =
     (let k = floor_log2 x - 52
      in of_int (round_half_even (x / power_int 2 k)) * power_int 2 k)"

definition to_double :: "rat \<Rightarrow> rat" where
  "to_double x = (if x = 0 then 0 else if x < 0 then - round_pos (- x) else round_pos x)"

text \<open>Line 63: \<^verbatim>\<open>Math.min(Math.floor((elapsed / 20000) * 90), 90)\<close>.\<close>

definition estimatedProgress :: "int \<Rightarrow> int" where
  "estimatedProgress elapsed =
     min \<lfloor>to_double (to_double (of_int elapsed / 20000) * 90)\<rfloor> 90"

text \<open>The same formula in exact arithmetic, as the specification writes it:
  \<^verbatim>\<open>min(floor(elapsed_ms / 20000 * 90), 90)\<close>.\<close>

definition exactProgress :: "int \<Rightarrow> int" where
  "exactProgress elapsed = min \<lfloor>(of_int elapsed :: rat) / 20000 * 90\<rfloor> 90"

subsection \<open>Strings\<close>

text \<open>
  Strings are byte strings. \<^verbatim>\<open>toLowerCase\<close> maps the letters A to Z to a to z; every
  other byte is kept (no character outside ASCII lower-cases to a letter of
  \<^verbatim>\<open>processing\<close>, \<^verbatim>\<open>completed\<close> or \<^verbatim>\<open>failed\<close>).
  A value is truthy when it is present and not the empty string.
\<close>

definition lower_char :: "char \<Rightarrow> char" where
  "lower_char c =
     (let n = (of_char c :: nat) in if 65 \<le> n \<and> n \<le> 90 then char_of (n + 32) else c)"

definition toLowerCase :: "string \<Rightarrow> string" where
  "toLowerCase s = map lower_char s"

definition truthy :: "string option \<Rightarrow> bool" where
  "truthy v = (case v of None \<Rightarrow> False | Some s \<Rightarrow> s \<noteq> [])"

type_synonym Screen = string
type_synonym Tab = string

section \<open>ScanningScreen: the status poll loop\<close>

text \<open>
  One run of the effect of \<^verbatim>\<open>ScanningScreen\<close> (lines 22 to 118), from its body to its
  cleanup. The state holds the closure variable \<^verbatim>\<open>isMounted\<close>, the two refs, the
  \<^verbatim>\<open>progress\<close> state, the timers this effect has created and that have neither fired
  nor been cleared, the suspended calls of \<^verbatim>\<open>pollStatus\<close> (each waiting for
  \<^verbatim>\<open>getReportStatus\<close> with the \<^verbatim>\<open>elapsed\<close> it computed before the call), and
  the calls made so far to \<^verbatim>\<open>getReportStatus\<close>, \<^verbatim>\<open>setCurrentScreen\<close> and
  \<^verbatim>\<open>toast.error\<close>, oldest first.
\<close>

datatype callback =
    Redirect            \<comment> \<open>line 30: \<^verbatim>\<open>if (!currentReportId) setCurrentScreen('scan')\<close>\<close>
  | Poll                \<comment> \<open>lines 67, 92, 106: \<^verbatim>\<open>pollStatus\<close>\<close>
  | Navigate Screen     \<comment> \<open>lines 74, 83: \<^verbatim>\<open>if (isMounted) setCurrentScreen(...)\<close>\<close>

record scanning_state =
  currentReportId :: "string option"
  isMounted :: bool
  startTimeRef :: int
  pollingRef :: "nat option"
  redirectTimer :: "nat option"
  progress :: int
  timers :: "(nat \<times> nat \<times> callback) list"
  nextTimerId :: nat
  inflight :: "int list"
  queries :: "string option list"
  navs :: "Screen list"
  toasts :: "string list"

text \<open>The component before its effect runs: \<^verbatim>\<open>useState(0)\<close>, \<^verbatim>\<open>useRef(null)\<close>.\<close>

definition initial :: "int \<Rightarrow> scanning_state" where
  "initial t =
     \<lparr>currentReportId = None, isMounted = False, startTimeRef = t, pollingRef = None,
      redirectTimer = None, progress = 0, timers = [], nextTimerId = 1, inflight = [],
      queries = [], navs = [], toasts = []\<rparr>"

text \<open>The response of one call of \<^verbatim>\<open>getReportStatus\<close>: the parsed body, or the thrown
  error with its \<^verbatim>\<open>status\<close> property (set by \<^verbatim>\<open>apiFetch\<close> to the HTTP status;
  absent on a network error). A body whose \<^verbatim>\<open>status\<close> is not a string has
  \<open>rs_status = None\<close>.\<close>

record report_status =
  rs_status :: "string option"
  rs_progress :: "int option"
  rs_error_message :: "string option"

datatype response = Resolved report_status | Rejected "int option"

definition setCurrentScreen :: "Screen \<Rightarrow> scanning_state \<Rightarrow> scanning_state" where
  "setCurrentScreen scr s = s\<lparr>navs := navs s @ [scr]\<rparr>"

definition toast_error :: "string \<Rightarrow> scanning_state \<Rightarrow> scanning_state" where
  "toast_error msg s = s\<lparr>toasts := toasts s @ [msg]\<rparr>"

definition setTimeout :: "callback \<Rightarrow> nat \<Rightarrow> scanning_state \<Rightarrow> scanning_state" where
  "setTimeout cb ms s =
     s\<lparr>timers := timers s @ [(nextTimerId s, ms, cb)], nextTimerId := nextTimerId s + 1\<rparr>"

definition clearTimeout :: "nat \<Rightarrow> scanning_state \<Rightarrow> scanning_state" where
  "clearTimeout i s = s\<lparr>timers := filter (\<lambda>t. fst t \<noteq> i) (timers s)\<rparr>"

text \<open>\<^verbatim>\<open>pollingRef.current = setTimeout(pollStatus, 2000)\<close>.\<close>

definition schedulePoll :: "scanning_state \<Rightarrow> scanning_state" where
  "schedulePoll s = (setTimeout Poll 2000 s)\<lparr>pollingRef := Some (nextTimerId s)\<rparr>"

text \<open>\<^verbatim>\<open>pollStatus\<close> up to its \<^verbatim>\<open>await\<close> (lines 40 to 53); \<open>now\<close> is the reading of
  \<^verbatim>\<open>Date.now()\<close> at line 44.\<close>

definition pollStatus :: "int \<Rightarrow> scanning_state \<Rightarrow> scanning_state" where
  "pollStatus now s =
     (if \<not> isMounted s then s
      else let elapsed = now - startTimeRef s in
        if elapsed > 60000
        then setCurrentScreen ''scan-error''
               (toast_error ''Analysis timed out. Please try again.'' s)
        else s\<lparr>inflight := inflight s @ [elapsed],
               queries := queries s @ [currentReportId s]\<rparr>)"

text \<open>The \<^verbatim>\<open>catch\<close> block (lines 94 to 108).\<close>

definition catchBlock :: "int option \<Rightarrow> scanning_state \<Rightarrow> scanning_state" where
  "catchBlock error_status s =
     (if error_status = Some 404 \<or> error_status = Some 400
      then setCurrentScreen ''scan-error''
             (toast_error ''Analysis failed: Report not found or invalid.'' s)
      else if isMounted s then schedulePoll s else s)"

text \<open>Line 82: \<^verbatim>\<open>reportStatus.error_message || '...'\<close>.\<close>

definition failureMessage :: "report_status \<Rightarrow> string" where
  "failureMessage r =
     (case rs_error_message r of
        None \<Rightarrow> ''Report processing failed. Please try again.''
      | Some m \<Rightarrow> if m = [] then ''Report processing failed. Please try again.'' else m)"

text \<open>\<^verbatim>\<open>pollStatus\<close> from the \<^verbatim>\<open>await\<close> on (lines 53 to 108), for the call that
  computed \<open>elapsed\<close>. Calling \<^verbatim>\<open>toLowerCase\<close> on a missing status throws a TypeError,
  which has no \<^verbatim>\<open>status\<close> property and is caught at line 94.\<close>

definition resume :: "int \<Rightarrow> response \<Rightarrow> scanning_state \<Rightarrow> scanning_state" where
  "resume elapsed resp s =
     (case resp of
        Rejected error_status \<Rightarrow> catchBlock error_status s
      | Resolved reportStatus \<Rightarrow>
          if \<not> isMounted s then s
          else (case rs_status reportStatus of
                  None \<Rightarrow> catchBlock None s
                | Some st \<Rightarrow>
                    let status = toLowerCase st in
                    if status = ''processing''
                    then schedulePoll (s\<lparr>progress := max (estimatedProgress elapsed) 10\<rparr>)
                    else if status = ''completed''
                    then setTimeout (Navigate ''report-result'') 500 (s\<lparr>progress := 100\<rparr>)
                    else if status = ''failed''
                    then setTimeout (Navigate ''scan-error'') 500
                           (toast_error (failureMessage reportStatus) s)
                    else schedulePoll s))"

text \<open>The effect body (lines 23 to 112): \<open>t0\<close> is the clock reading of line 26, \<open>t1\<close> the
  one of the first \<^verbatim>\<open>pollStatus()\<close>.\<close>

definition mount :: "string option \<Rightarrow> int \<Rightarrow> int \<Rightarrow> scanning_state \<Rightarrow> scanning_state" where
  "mount reportId t0 t1 s =
     (let s1 = s\<lparr>currentReportId := reportId, isMounted := True, startTimeRef := t0\<rparr> in
      if \<not> truthy reportId
      then (setTimeout Redirect 2000 s1)\<lparr>redirectTimer := Some (nextTimerId s1)\<rparr>
      else pollStatus t1 s1)"

text \<open>The cleanup the effect returned (line 36 without a report id, lines 114 to 117 with
  one). Timer ids are positive, so the test of line 116 is \<open>i \<noteq> 0\<close>.\<close>

definition cleanup :: "scanning_state \<Rightarrow> scanning_state" where
  "cleanup s =
     (if \<not> truthy (currentReportId s)
      then (case redirectTimer s of None \<Rightarrow> s | Some i \<Rightarrow> clearTimeout i s)
      else let s1 = s\<lparr>isMounted := False\<rparr> in
        (case pollingRef s1 of
           None \<Rightarrow> s1
         | Some i \<Rightarrow> if i = 0 then s1 else clearTimeout i s1))"

text \<open>A pending timer fires; \<open>now\<close> is the clock reading its callback takes, if any.\<close>

definition runCallback :: "callback \<Rightarrow> int \<Rightarrow> scanning_state \<Rightarrow> scanning_state" where
  "runCallback cb now s =
     (case cb of
        Redirect \<Rightarrow> if \<not> truthy (currentReportId s) then setCurrentScreen ''scan'' s else s
      | Poll \<Rightarrow> pollStatus now s
      | Navigate scr \<Rightarrow> if isMounted s then setCurrentScreen scr s else s)"

definition fireTimer :: "nat \<Rightarrow> int \<Rightarrow> scanning_state \<Rightarrow> scanning_state" where
  "fireTimer i now s =
     (case find (\<lambda>t. fst t = i) (timers s) of
        None \<Rightarrow> s
      | Some (_, _, cb) \<Rightarrow> runCallback cb now (clearTimeout i s))"

text \<open>What can happen to a mounted effect: a timer fires, the oldest outstanding query is
  answered, or React runs the cleanup.\<close>

datatype event = Fire nat int | Respond response | Cleanup

definition step :: "event \<Rightarrow> scanning_state \<Rightarrow> scanning_state" where
  "step ev s =
     (case ev of
        Fire i now \<Rightarrow> fireTimer i now s
      | Respond resp \<Rightarrow>
          (case inflight s of [] \<Rightarrow> s | elapsed # rest \<Rightarrow> resume elapsed resp (s\<lparr>inflight := rest\<rparr>))
      | Cleanup \<Rightarrow> cleanup s)"

fun exec :: "event list \<Rightarrow> scanning_state \<Rightarrow> scanning_state" where
  "exec [] s = s"
| "exec (ev # evs) s = exec evs (step ev s)"

text \<open>
  A scripted status source with nothing cancelled: every query is answered by the next
  entry of the script, and the timer that the answer leaves pending fires \<open>late\<close>
  milliseconds after its delay has passed (\<open>late\<close> also covers the time the answer took).
  The run stops when nothing is pending or the script is used up.
\<close>

fun drive :: "(response \<times> nat) list \<Rightarrow> int \<Rightarrow> scanning_state \<Rightarrow> scanning_state" where
  "drive [] now s = s"
| "drive ((resp, late) # script) now s =
     (if inflight s = [] then s
      else let s1 = step (Respond resp) s in
        (case timers s1 of
           [] \<Rightarrow> s1
         | (i, ms, cb) # _ \<Rightarrow>
             let now' = now + int ms + int late
             in drive script now' (step (Fire i now') s1)))"

definition runLoop :: "string option \<Rightarrow> int \<Rightarrow> nat \<Rightarrow> (response \<times> nat) list \<Rightarrow> scanning_state" where
  "runLoop reportId t0 d script =
     drive script (t0 + int d) (mount reportId t0 (t0 + int d) (initial t0))"

text \<open>At most one thing is ever outstanding or done: a pending timer, a query in flight,
  or a navigation already made.\<close>

definition single :: "scanning_state \<Rightarrow> bool" where
  "single s \<longleftrightarrow> length (timers s) + length (inflight s) + length (navs s) \<le> 1"

text \<open>The clock readings an event list takes, in order.\<close>

fun readings :: "event list \<Rightarrow> int list" where
  "readings [] = []"
| "readings (Fire i now # evs) = now # readings evs"
| "readings (Respond resp # evs) = readings evs"
| "readings (Cleanup # evs) = readings evs"

text \<open>What a \<^verbatim>\<open>processing\<close> answer shows for a query issued \<open>e\<close> milliseconds after
  the start (line 64).\<close>

definition shown :: "int \<Rightarrow> int" where
  "shown e = max (estimatedProgress e) 10"

text \<open>With \<open>T\<close> the latest clock reading: the progress shown is at most what any
  outstanding query, or a poll started now, would set.\<close>

definition progress_inv :: "int \<Rightarrow> scanning_state \<Rightarrow> bool" where
  "progress_inv T s \<longleftrightarrow>
     single s \<and> progress s \<le> 100 \<and>
     (\<forall>e \<in> set (inflight s). e \<le> T - startTimeRef s \<and> progress s \<le> shown e) \<and>
     (\<forall>t \<in> set (timers s). snd (snd t) = Poll \<longrightarrow> progress s \<le> shown (T - startTimeRef s))"

text \<open>How a scripted run can end: with its one navigation made and nothing pending, or
  with the script used up while a query is still outstanding.\<close>

definition finished :: "scanning_state \<Rightarrow> bool" where
  "finished f \<longleftrightarrow> length (navs f) = 1 \<and> timers f = [] \<and> inflight f = []"

definition starved :: "scanning_state \<Rightarrow> bool" where
  "starved f \<longleftrightarrow> navs f = [] \<and> timers f = [] \<and> length (inflight f) = 1"

text \<open>No query is outstanding and no pending timer would poll.\<close>

definition winding_down :: "scanning_state \<Rightarrow> bool" where
  "winding_down s \<longleftrightarrow> inflight s = [] \<and> (\<forall>t \<in> set (timers s). snd (snd t) \<noteq> Poll)"

section \<open>AppProvider: session and navigation state\<close>

text \<open>
  The state variables of \<^verbatim>\<open>AppProvider\<close> that its two effects read or write, the
  dependency values the persistence effect last ran with, the browser's
  \<^verbatim>\<open>localStorage\<close>, and the calls made so far to \<^verbatim>\<open>localStorage.setItem\<close>. Screens
  and tabs are the strings they are at run time: a value read back from storage is cast,
  not checked.
\<close>

record User =
  firstName :: string
  lastName :: string
  email :: string

record app_state =
  currentScreen :: Screen
  activeTab :: Tab
  user :: "User option"
  isLoggedIn :: bool
  hasCompletedProfile :: bool
  isCheckingAuth :: bool
  effectDeps :: "(Screen \<times> Tab \<times> bool) option"
  localStorage :: "string \<rightharpoonup> string"
  setItems :: "(string \<times> string) list"

text \<open>The first render: lines 103 to 118, over the storage the browser kept.\<close>

definition appInitial :: "(string \<rightharpoonup> string) \<Rightarrow> app_state" where
  "appInitial storage =
     \<lparr>currentScreen = ''splash'', activeTab = ''home'', user = None, isLoggedIn = False,
      hasCompletedProfile = False, isCheckingAuth = True, effectDeps = None,
      localStorage = storage, setItems = []\<rparr>"

definition authOnly :: "Screen \<Rightarrow> bool" where
  "authOnly scr \<longleftrightarrow>
     scr = ''splash'' \<or> scr = ''onboarding'' \<or> scr = ''login'' \<or> scr = ''signup''"

definition setItem :: "string \<Rightarrow> string \<Rightarrow> app_state \<Rightarrow> app_state" where
  "setItem k v s = s\<lparr>localStorage := (localStorage s)(k \<mapsto> v), setItems := setItems s @ [(k, v)]\<rparr>"

definition removeItem :: "string \<Rightarrow> app_state \<Rightarrow> app_state" where
  "removeItem k s = s\<lparr>localStorage := (localStorage s)(k := None)\<rparr>"

text \<open>The persistence effect (lines 257 to 264).\<close>

definition persistEffect :: "app_state \<Rightarrow> app_state" where
  "persistEffect s =
     (let s1 =
        (if isLoggedIn s \<and> currentScreen s \<noteq> ''splash'' \<and> currentScreen s \<noteq> ''onboarding''
            \<and> currentScreen s \<noteq> ''login'' \<and> currentScreen s \<noteq> ''signup''
         then setItem ''mediguide_current_screen'' (currentScreen s) s else s)
      in if isLoggedIn s \<and> activeTab s \<noteq> []
         then setItem ''mediguide_active_tab'' (activeTab s) s1 else s1)"

text \<open>React commits a render of the pending state updates: an effect runs when one of its
  dependencies (line 264) differs from the value it last ran with, and on the first commit.\<close>

definition commit :: "app_state \<Rightarrow> app_state" where
  "commit s =
     (let deps = (currentScreen s, activeTab s, isLoggedIn s)
      in if effectDeps s = Some deps then s else persistEffect (s\<lparr>effectDeps := Some deps\<rparr>))"

text \<open>\<^verbatim>\<open>fetchUserProfile\<close> (lines 123 to 168) ends by setting the user it built, or, on
  an error or a missing row, by setting nothing.\<close>

definition fetchUserProfile :: "User option \<Rightarrow> app_state \<Rightarrow> app_state" where
  "fetchUserProfile synced s =
     (case synced of None \<Rightarrow> s | Some u \<Rightarrow> s\<lparr>user := Some u, hasCompletedProfile := True\<rparr>)"

text \<open>Lines 186 to 196 (\<open>tabToo = False\<close>) and lines 224 to 235 (\<open>tabToo = True\<close>, which
  also resets the tab when nothing is restored).\<close>

definition restoreSaved :: "bool \<Rightarrow> app_state \<Rightarrow> app_state" where
  "restoreSaved tabToo s =
     (let savedScreen = localStorage s ''mediguide_current_screen'';
          savedTab = localStorage s ''mediguide_active_tab''
      in case savedScreen of
           None \<Rightarrow> if tabToo then s\<lparr>currentScreen := ''home'', activeTab := ''home''\<rparr>
                   else s\<lparr>currentScreen := ''home''\<rparr>
         | Some scr \<Rightarrow>
             if scr \<noteq> [] \<and> scr \<noteq> ''splash'' \<and> scr \<noteq> ''onboarding'' \<and> scr \<noteq> ''login''
                \<and> scr \<noteq> ''signup''
             then (case savedTab of
                     None \<Rightarrow> s\<lparr>currentScreen := scr\<rparr>
                   | Some tab \<Rightarrow>
                       if tab \<noteq> [] then s\<lparr>currentScreen := scr, activeTab := tab\<rparr>
                       else s\<lparr>currentScreen := scr\<rparr>)
             else if tabToo then s\<lparr>currentScreen := ''home'', activeTab := ''home''\<rparr>
             else s\<lparr>currentScreen := ''home''\<rparr>)"

text \<open>\<^verbatim>\<open>initializeAuth\<close> once \<^verbatim>\<open>getSession\<close> and \<^verbatim>\<open>getCurrentUser\<close> have
  answered (lines 177 to 183 and 197 to 207): either call threw, or they returned a session
  and a user (present or not). With both present the function sets \<^verbatim>\<open>isLoggedIn\<close> and
  waits for \<^verbatim>\<open>fetchUserProfile\<close>.\<close>

datatype auth_check = Threw | Checked bool bool

definition initializeAuth_checked :: "auth_check \<Rightarrow> app_state \<Rightarrow> app_state" where
  "initializeAuth_checked c s =
     (case c of
        Checked True True \<Rightarrow> s\<lparr>isLoggedIn := True\<rparr>
      | _ \<Rightarrow> s\<lparr>isLoggedIn := False, currentScreen := ''onboarding'', isCheckingAuth := False\<rparr>)"

text \<open>\<^verbatim>\<open>initializeAuth\<close> from the answer of the profile request on (lines 183 to 196,
  205 to 207).\<close>

definition initializeAuth_resumed :: "User option \<Rightarrow> app_state \<Rightarrow> app_state" where
  "initializeAuth_resumed synced s =
     (restoreSaved False (fetchUserProfile synced s))\<lparr>isCheckingAuth := False\<rparr>"

text \<open>The listener of \<^verbatim>\<open>onAuthStateChange\<close> (lines 216 to 249) up to its first
  \<^verbatim>\<open>await\<close>, and its \<^verbatim>\<open>SIGNED_IN\<close> branch from the answers of
  \<^verbatim>\<open>getCurrentUser\<close> and the profile request on.\<close>

datatype auth_event = SIGNED_IN | SIGNED_OUT | TOKEN_REFRESHED | OTHER_EVENT

definition onAuthStateChange :: "auth_event \<Rightarrow> bool \<Rightarrow> app_state \<Rightarrow> app_state" where
  "onAuthStateChange event session s =
     (if event = SIGNED_IN \<and> session then s\<lparr>isLoggedIn := True\<rparr>
      else if event = SIGNED_OUT
      then removeItem ''mediguide_active_tab''
             (removeItem ''mediguide_current_screen''
               (s\<lparr>isLoggedIn := False, user := None, currentScreen := ''onboarding'',
                  activeTab := ''home''\<rparr>))
      else if event = TOKEN_REFRESHED \<and> session then s\<lparr>isLoggedIn := True\<rparr>
      else s)"

definition signedIn_resumed :: "bool \<Rightarrow> User option \<Rightarrow> app_state \<Rightarrow> app_state" where
  "signedIn_resumed supabaseUser synced s =
     (if supabaseUser then restoreSaved True (fetchUserProfile synced s) else s)"

text \<open>What can happen to the provider: React commits a render, a suspended handler
  resumes, the auth provider raises an event, or a screen calls one of the setters it got
  from the context.\<close>

datatype app_event =
    Commit
  | AuthChecked auth_check
  | InitProfileFetched "User option"
  | AuthEvent auth_event bool
  | SignInResumed bool "User option"
  | SetCurrentScreen Screen
  | SetActiveTab Tab
  | SetIsLoggedIn bool
  | SetUser "User option"

definition app_step :: "app_event \<Rightarrow> app_state \<Rightarrow> app_state" where
  "app_step ev s =
     (case ev of
        Commit \<Rightarrow> commit s
      | AuthChecked c \<Rightarrow> initializeAuth_checked c s
      | InitProfileFetched synced \<Rightarrow> initializeAuth_resumed synced s
      | AuthEvent event session \<Rightarrow> onAuthStateChange event session s
      | SignInResumed supabaseUser synced \<Rightarrow> signedIn_resumed supabaseUser synced s
      | SetCurrentScreen scr \<Rightarrow> s\<lparr>currentScreen := scr\<rparr>
      | SetActiveTab tab \<Rightarrow> s\<lparr>activeTab := tab\<rparr>
      | SetIsLoggedIn b \<Rightarrow> s\<lparr>isLoggedIn := b\<rparr>
      | SetUser u \<Rightarrow> s\<lparr>user := u\<rparr>)"

fun app_exec :: "app_event list \<Rightarrow> app_state \<Rightarrow> app_state" where
  "app_exec [] s = s"
| "app_exec (ev # evs) s = app_exec evs (app_step ev s)"

text \<open>Application start with a valid session: the first commit, the session check, the
  commit of \<^verbatim>\<open>setIsLoggedIn(true)\<close> while the profile request is on the network, the
  answer of that request, and the commit of the restored screen and tab.\<close>

definition appStart :: "User option \<Rightarrow> (string \<rightharpoonup> string) \<Rightarrow> app_state" where
  "appStart synced storage =
     app_exec [Commit, AuthChecked (Checked True True), Commit, InitProfileFetched synced, Commit]
       (appInitial storage)"

text \<open>No call of \<^verbatim>\<open>setItem\<close> so far, and no value now in storage, names an auth-only
  screen under the saved-screen key.\<close>

definition screen_ok :: "app_state \<Rightarrow> bool" where
  "screen_ok s \<longleftrightarrow>
     (\<forall>(k, v) \<in> set (setItems s). k = ''mediguide_current_screen'' \<longrightarrow> \<not> authOnly v)"

definition stored_ok :: "app_state \<Rightarrow> bool" where
  "stored_ok s \<longleftrightarrow> (\<forall>v. localStorage s ''mediguide_current_screen'' = Some v \<longrightarrow> \<not> authOnly v)"

section \<open>Properties\<close>

lemmas effect_defs = setCurrentScreen_def toast_error_def setTimeout_def clearTimeout_def
  schedulePoll_def

lemmas loop_defs = step_def fireTimer_def runCallback_def pollStatus_def resume_def catchBlock_def
  cleanup_def

lemmas app_defs = app_step_def commit_def persistEffect_def setItem_def removeItem_def
  initializeAuth_checked_def initializeAuth_resumed_def onAuthStateChange_def
  signedIn_resumed_def restoreSaved_def fetchUserProfile_def

lemmas run_defs = runLoop_def mount_def initial_def truthy_def loop_defs effect_defs
  toLowerCase_def lower_char_def failureMessage_def Let_def

subsection \<open>Rounding to a double is monotone\<close>

lemma floor_log2_ge1:
  assumes "1 \<le> x"
  shows "power_int 2 (floor_log2 x) \<le> x \<and> x < power_int 2 (floor_log2 x + 1)"
proof -
  let ?n = "\<lfloor>x\<rfloor>"
  let ?b = "bitlen ?n"
  from assms have n: "0 < ?n" by simp
  from bitlen_bounds [OF n] have lo: "2 ^ nat (?b - 1) \<le> ?n" and hi: "?n < 2 ^ nat ?b"
    by simp_all
  from n have b: "1 \<le> ?b" by (simp add: bitlen_alt_def)
  have "(of_int (2 ^ nat (?b - 1)) :: rat) \<le> of_int ?n"
    using lo of_int_le_iff by blast
  also have "\<dots> \<le> x" by simp
  finally have 1: "(2 :: rat) ^ nat (?b - 1) \<le> x" by simp
  from hi have "?n + 1 \<le> 2 ^ nat ?b" by simp
  then have "(of_int (?n + 1) :: rat) \<le> of_int (2 ^ nat ?b)"
    using of_int_le_iff by blast
  moreover have "x < of_int (?n + 1)" by linarith
  ultimately have 2: "x < (2 :: rat) ^ nat ?b" by simp
  from assms b 1 2 show ?thesis
    by (simp add: floor_log2_def power_int_def)
qed

lemma floor_log2_lt1:
  assumes "0 < x" "x < 1"
  shows "power_int 2 (floor_log2 x) \<le> x \<and> x < power_int 2 (floor_log2 x + 1)"
proof -
  let ?y = "1 / x"
  let ?c = "\<lceil>?y\<rceil>"
  let ?b = "bitlen (?c - 1)"
  from assms have y: "1 < ?y" by simp
  then have c: "0 < ?c - 1" by linarith
  from bitlen_bounds [OF c] have lo: "2 ^ nat (?b - 1) \<le> ?c - 1" and hi: "?c - 1 < 2 ^ nat ?b"
    by simp_all
  from c have b: "1 \<le> ?b" by (simp add: bitlen_alt_def)
  from hi have "?c \<le> 2 ^ nat ?b" by simp
  then have "(of_int ?c :: rat) \<le> of_int (2 ^ nat ?b)"
    using of_int_le_iff by blast
  then have "(of_int ?c :: rat) \<le> 2 ^ nat ?b" by simp
  moreover have "?y \<le> of_int ?c" by (rule le_of_int_ceiling)
  ultimately have "?y \<le> (2 :: rat) ^ nat ?b" by (rule order_trans [rotated])
  with assms have 1: "1 / (2 :: rat) ^ nat ?b \<le> x"
    by (simp add: field_simps)
  have "(of_int (2 ^ nat (?b - 1)) :: rat) \<le> of_int (?c - 1)"
    using lo of_int_le_iff by blast
  moreover have "of_int (?c - 1) < ?y" by linarith
  ultimately have "(2 :: rat) ^ nat (?b - 1) < ?y" by simp
  with assms have 2: "x < 1 / (2 :: rat) ^ nat (?b - 1)"
    by (simp add: field_simps)
  have 3: "power_int (2 :: rat) (- ?b + 1) = 1 / 2 ^ nat (?b - 1)"
    using b by (cases "?b = 1") (simp_all add: power_int_def field_simps)
  have 4: "power_int (2 :: rat) (- ?b) = 1 / 2 ^ nat ?b"
    using b by (simp add: power_int_def field_simps)
  from assms 1 2 3 4 show ?thesis
    by (simp add: floor_log2_def)
qed

lemma floor_log2_bounds:
  "0 < x \<Longrightarrow> power_int 2 (floor_log2 x) \<le> x \<and> x < power_int 2 (floor_log2 x + 1)"
  using floor_log2_ge1 [of x] floor_log2_lt1 [of x] by (cases "1 \<le> x") simp_all

lemma floor_log2_mono:
  assumes "0 < x" "x \<le> y"
  shows "floor_log2 x \<le> floor_log2 y"
proof (rule ccontr)
  assume "\<not> floor_log2 x \<le> floor_log2 y"
  then have "floor_log2 y + 1 \<le> floor_log2 x" by simp
  then have "power_int (2 :: rat) (floor_log2 y + 1) \<le> power_int 2 (floor_log2 x)"
    by (simp add: power_int_increasing)
  with floor_log2_bounds [of x] floor_log2_bounds [of y] assms show False by simp
qed

lemma round_half_even_mono: "a \<le> b \<Longrightarrow> round_half_even a \<le> round_half_even b"
proof -
  assume ab: "a \<le> b"
  then have f: "\<lfloor>a\<rfloor> \<le> \<lfloor>b\<rfloor>" by (rule floor_mono)
  show ?thesis
  proof (cases "\<lfloor>a\<rfloor> = \<lfloor>b\<rfloor>")
    case True
    with ab show ?thesis by (auto simp: round_half_even_def Let_def)
  next
    case False
    with f have "\<lfloor>a\<rfloor> + 1 \<le> \<lfloor>b\<rfloor>" by simp
    moreover have "round_half_even a \<le> \<lfloor>a\<rfloor> + 1" by (simp add: round_half_even_def Let_def)
    moreover have "\<lfloor>b\<rfloor> \<le> round_half_even b" by (simp add: round_half_even_def Let_def)
    ultimately show ?thesis by linarith
  qed
qed

lemma round_half_even_of_int: "round_half_even (of_int n) = n"
  by (simp add: round_half_even_def)

lemma round_pos_bounds:
  assumes "0 < x"
  shows "power_int 2 (floor_log2 x) \<le> round_pos x \<and> round_pos x \<le> power_int 2 (floor_log2 x + 1)"
proof -
  let ?e = "floor_log2 x"
  let ?k = "?e - 52"
  let ?p = "power_int (2 :: rat) ?k"
  have p: "0 < ?p" by simp
  have e: "power_int 2 ?e = (2 :: rat) ^ 52 * ?p" "power_int 2 (?e + 1) = (2 :: rat) ^ 53 * ?p"
    by (simp_all add: power_int_diff power_int_add)
  from floor_log2_bounds [OF assms] e p have "2 ^ 52 \<le> x / ?p" "x / ?p \<le> 2 ^ 53"
    by (simp_all add: field_simps)
  then have "round_half_even (of_int (2 ^ 52)) \<le> round_half_even (x / ?p)"
    "round_half_even (x / ?p) \<le> round_half_even (of_int (2 ^ 53))"
    by (simp_all add: round_half_even_mono)
  then have "(of_int (2 ^ 52) :: rat) \<le> of_int (round_half_even (x / ?p))"
    "(of_int (round_half_even (x / ?p)) :: rat) \<le> of_int (2 ^ 53)"
    unfolding round_half_even_of_int of_int_le_iff by simp_all
  with p have "of_int (2 ^ 52) * ?p \<le> of_int (round_half_even (x / ?p)) * ?p"
    "of_int (round_half_even (x / ?p)) * ?p \<le> of_int (2 ^ 53) * ?p"
    by (simp_all only: mult_le_cancel_right_pos)
  with e show ?thesis by (simp add: round_pos_def Let_def)
qed

lemma round_pos_mono:
  assumes "0 < x" "x \<le> y"
  shows "round_pos x \<le> round_pos y"
proof (cases "floor_log2 x = floor_log2 y")
  case True
  let ?p = "power_int (2 :: rat) (floor_log2 y - 52)"
  have p: "0 < ?p" by simp
  with assms have "x / ?p \<le> y / ?p" by (simp add: divide_right_mono)
  then have "(of_int (round_half_even (x / ?p)) :: rat) \<le> of_int (round_half_even (y / ?p))"
    by (simp add: round_half_even_mono)
  with p True show ?thesis by (simp add: round_pos_def Let_def)
next
  case False
  with floor_log2_mono [OF assms] have "floor_log2 x + 1 \<le> floor_log2 y" by simp
  then have "power_int (2 :: rat) (floor_log2 x + 1) \<le> power_int 2 (floor_log2 y)"
    by (simp add: power_int_increasing)
  moreover from assms have "0 < y" by simp
  ultimately show ?thesis
    using round_pos_bounds [OF assms(1)] round_pos_bounds [of y] by linarith
qed

lemma round_pos_pos: "0 < x \<Longrightarrow> 0 < round_pos x"
proof -
  assume "0 < x"
  from round_pos_bounds [OF this] have "power_int 2 (floor_log2 x) \<le> round_pos x" ..
  moreover have "(0 :: rat) < power_int 2 (floor_log2 x)" by simp
  ultimately show ?thesis by linarith
qed

lemma to_double_mono: "x \<le> y \<Longrightarrow> to_double x \<le> to_double y"
proof -
  assume xy: "x \<le> y"
  consider "0 < x" | "y < 0" | "x \<le> 0" "0 \<le> y" using xy by linarith
  then show ?thesis
  proof cases
    case 1
    with xy round_pos_mono [of x y] show ?thesis by (simp add: to_double_def)
  next
    case 2
    with xy round_pos_mono [of "- y" "- x"] show ?thesis by (simp add: to_double_def)
  next
    case 3
    have "to_double x \<le> 0"
      using 3(1) round_pos_pos [of "- x"] by (cases "x = 0") (simp_all add: to_double_def)
    moreover have "0 \<le> to_double y"
      using 3(2) round_pos_pos [of y] by (cases "y = 0") (simp_all add: to_double_def)
    ultimately show ?thesis by simp
  qed
qed

lemma estimatedProgress_mono: "a \<le> b \<Longrightarrow> estimatedProgress a \<le> estimatedProgress b"
proof -
  assume "a \<le> b"
  then have "(of_int a :: rat) / 20000 \<le> of_int b / 20000" by simp
  then have "to_double (of_int a / 20000) * 90 \<le> to_double (of_int b / 20000) * 90"
    by (simp add: to_double_mono)
  then have "\<lfloor>to_double (to_double (of_int a / 20000) * 90)\<rfloor>
      \<le> \<lfloor>to_double (to_double (of_int b / 20000) * 90)\<rfloor>"
    by (intro floor_mono to_double_mono)
  then show ?thesis by (simp add: estimatedProgress_def)
qed

lemma estimatedProgress_le: "estimatedProgress e \<le> 90"
  by (simp add: estimatedProgress_def)

text \<open>Each rounding moves a value by at most one part in \<open>2 ^ 53\<close>.\<close>

lemma exactProgress_div: "exactProgress e = min (e * 90 div 20000) 90"
proof -
  have "(of_int e :: rat) / 20000 * 90 = of_int (e * 90) / of_int 20000" by simp
  then have "\<lfloor>(of_int e :: rat) / 20000 * 90\<rfloor> = e * 90 div 20000"
    by (simp only: floor_divide_of_int_eq)
  then show ?thesis by (simp add: exactProgress_def)
qed

lemma round_half_even_err: "\<bar>of_int (round_half_even m) - m\<bar> \<le> 1 / 2"
proof -
  have "of_int \<lfloor>m\<rfloor> \<le> m" "m < of_int \<lfloor>m\<rfloor> + 1" by linarith+
  then show ?thesis by (auto simp: round_half_even_def Let_def)
qed

lemma round_pos_err:
  assumes "0 < x"
  shows "\<bar>round_pos x - x\<bar> \<le> x / 2 ^ 53"
proof -
  let ?p = "power_int (2 :: rat) (floor_log2 x - 52)"
  have p: "0 < ?p" by simp
  have e: "power_int 2 (floor_log2 x) = (2 :: rat) ^ 52 * ?p"
    by (simp add: power_int_diff)
  from round_half_even_err [of "x / ?p"]
  have "\<bar>of_int (round_half_even (x / ?p)) - x / ?p\<bar> * ?p \<le> 1 / 2 * ?p"
    using p by (intro mult_right_mono) simp_all
  moreover have "\<bar>a - x / ?p\<bar> * ?p = \<bar>a * ?p - x\<bar>" for a
  proof -
    have "\<bar>a - x / ?p\<bar> * ?p = \<bar>(a - x / ?p) * ?p\<bar>" using p by (simp add: abs_mult)
    also have "(a - x / ?p) * ?p = a * ?p - x" using p by (simp add: left_diff_distrib)
    finally show ?thesis .
  qed
  ultimately have "\<bar>round_pos x - x\<bar> \<le> ?p / 2" by (simp add: round_pos_def Let_def)
  moreover from floor_log2_bounds [OF assms] e have "2 ^ 52 * ?p \<le> x" by simp
  then have "?p / 2 \<le> x / 2 ^ 53" by simp
  ultimately show ?thesis by linarith
qed

lemma to_double_err:
  assumes "0 \<le> x"
  shows "\<bar>to_double x - x\<bar> \<le> x / 2 ^ 53"
  using assms round_pos_err [of x] by (cases "x = 0") (simp_all add: to_double_def)

lemma to_double_nonneg: "0 \<le> x \<Longrightarrow> 0 \<le> to_double x"
  using to_double_mono [of 0 x] by (simp add: to_double_def)

text \<open>Below 20 seconds the two roundings move the product by less than 1/2000, so the
  floor is the exact one unless the exact product is an integer, which it is at the
  multiples of 2 seconds.\<close>

lemma product_err:
  assumes "0 \<le> e" "e \<le> 20000"
  shows "\<bar>to_double (to_double (of_int e / 20000) * 90) - of_int e / 20000 * 90\<bar> < 1 / 2000"
proof -
  let ?q = "(of_int e :: rat) / 20000"
  let ?y = "to_double ?q"
  let ?z = "to_double (?y * 90)"
  define u :: rat where "u = 1 / 2 ^ 53"
  have u: "0 \<le> u" "u \<le> 1" "270 * u < 1 / 2000" by (simp_all add: u_def)
  from assms have q: "0 \<le> ?q" "?q \<le> 1" by simp_all
  have "?q / 2 ^ 53 = ?q * u" by (simp add: u_def)
  also have "\<dots> \<le> 1 * u" using q u(1) by (intro mult_right_mono)
  finally have "?q / 2 ^ 53 \<le> u" by simp
  with to_double_err [OF q(1)] have y: "\<bar>?y - ?q\<bar> \<le> u" by linarith
  have y0: "0 \<le> ?y" using q(1) by (rule to_double_nonneg)
  from y q u have y1: "?y \<le> 2" by linarith
  from y0 have w0: "0 \<le> ?y * 90" by simp
  have "?y * 90 / 2 ^ 53 = ?y * (90 * u)" by (simp add: u_def)
  also have "\<dots> \<le> 2 * (90 * u)" using y1 u(1) by (intro mult_right_mono) simp_all
  finally have "?y * 90 / 2 ^ 53 \<le> 180 * u" by simp
  with to_double_err [OF w0] have z: "\<bar>?z - ?y * 90\<bar> \<le> 180 * u" by linarith
  from y z u(3) show ?thesis by linarith
qed

lemma floor_between:
  assumes "of_int n < (z :: rat)" "z < of_int n + 1"
  shows "\<lfloor>z\<rfloor> = n"
  using assms by (simp add: floor_unique)

lemma estimatedProgress_exact:
  assumes "0 \<le> e" "e < 20000" "e mod 2000 \<noteq> 0"
  shows "estimatedProgress e = exactProgress e"
proof -
  let ?v = "(of_int e :: rat) / 20000 * 90"
  let ?z = "to_double (to_double (of_int e / 20000) * 90)"
  define n where "n = e * 90 div 20000"
  define r where "r = e * 90 mod 20000"
  have er: "e * 90 = 20000 * n + r"
    unfolding n_def r_def by (rule mult_div_mod_eq [symmetric])
  have "r = 10 * (9 * e mod 2000)"
    unfolding r_def using mult_mod_right [of 10 "9 * e" 2000] by (simp add: mult.commute)
  moreover have "9 * e mod 2000 \<noteq> 0"
  proof
    assume "9 * e mod 2000 = 0"
    then have "2000 dvd 9 * e" by (simp add: dvd_eq_mod_eq_0)
    then have a: "2000 dvd 889 * (9 * e)" by (rule dvd_mult)
    have b: "2000 dvd 4 * (2000 * e)" by (rule dvd_mult) (rule dvd_triv_left)
    have eq: "889 * (9 * e) - 4 * (2000 * e) = e" by simp
    from dvd_diff [OF a b] have "2000 dvd e" unfolding eq .
    with assms(3) show False by (simp add: dvd_eq_mod_eq_0)
  qed
  moreover have "0 \<le> 9 * e mod 2000" "9 * e mod 2000 < 2000" by simp_all
  ultimately have r: "10 \<le> r" "r \<le> 19990" by linarith+
  from assms have n: "n < 90" unfolding n_def by simp
  have "?v = of_int (e * 90) / 20000" by simp
  also have "\<dots> = of_int n + of_int r / 20000" by (simp add: er)
  finally have v: "?v = of_int n + of_int r / 20000" .
  from r have "(10 :: rat) \<le> of_int r" "(of_int r :: rat) \<le> 19990" by linarith+
  then have rr: "1 / 2000 \<le> (of_int r :: rat) / 20000" "(of_int r :: rat) / 20000 \<le> 1 - 1 / 2000"
    by simp_all
  from product_err [of e] assms have "\<bar>?z - ?v\<bar> < 1 / 2000" by simp
  with rr have "of_int n < ?z" "?z < of_int n + 1" unfolding v by linarith+
  then have "\<lfloor>?z\<rfloor> = n" by (rule floor_between)
  with n show ?thesis by (simp add: estimatedProgress_def exactProgress_div n_def)
qed

text \<open>At the multiples of 2 seconds the floor is the exact one too, except at 14 seconds,
  where the exact product is 63 and the rounded one is just below it.\<close>

lemma estimatedProgress_points:
  "estimatedProgress 2000 = 9 \<and> estimatedProgress 4000 = 18 \<and> estimatedProgress 6000 = 27 \<and>
   estimatedProgress 8000 = 36 \<and> estimatedProgress 10000 = 45 \<and>
   estimatedProgress 12000 = 54 \<and> estimatedProgress 14000 = 62 \<and>
   estimatedProgress 16000 = 72 \<and> estimatedProgress 18000 = 81 \<and>
   estimatedProgress 20000 = 90"
  by code_simp

lemma estimatedProgress_0: "estimatedProgress 0 = 0"
  by (simp add: estimatedProgress_def to_double_def)

text \<open>So the progress shown is the exact formula's everywhere but at 14 seconds.\<close>

lemma clamped_exact:
  assumes "e \<noteq> 14000"
  shows "max (estimatedProgress e) 10 = max (exactProgress e) 10"
proof -
  consider "e < 0" | "0 \<le> e" "e < 20000" "e mod 2000 \<noteq> 0"
    | "0 \<le> e" "e < 20000" "e mod 2000 = 0" | "20000 \<le> e"
    by linarith
  then show ?thesis
  proof cases
    case 1
    then have "estimatedProgress e \<le> estimatedProgress 0" by (intro estimatedProgress_mono) simp
    moreover from 1 have "e * 90 div 20000 \<le> 0" by simp
    ultimately show ?thesis by (simp add: estimatedProgress_0 exactProgress_div)
  next
    case 2
    then show ?thesis by (simp add: estimatedProgress_exact)
  next
    case 3
    define m where "m = e div 2000"
    from 3 have e: "e = 2000 * m"
      unfolding m_def using mult_div_mod_eq [of 2000 e] by linarith
    from 3 have "0 \<le> m" "m < 10" unfolding m_def by simp_all
    then have "m = 0 \<or> m = 1 \<or> m = 2 \<or> m = 3 \<or> m = 4 \<or> m = 5 \<or> m = 6 \<or> m = 7
      \<or> m = 8 \<or> m = 9"
      by arith
    then consider "m = 0" | "m = 1" | "m = 2" | "m = 3" | "m = 4" | "m = 5" | "m = 6" | "m = 7"
      | "m = 8" | "m = 9"
      by blast
    then show ?thesis
      using assms estimatedProgress_points
      by cases (simp_all add: e estimatedProgress_0 exactProgress_div)
  next
    case 4
    then have "estimatedProgress 20000 \<le> estimatedProgress e" by (rule estimatedProgress_mono)
    with estimatedProgress_points estimatedProgress_le [of e] have "estimatedProgress e = 90"
      by simp
    moreover from 4 have "90 \<le> e * 90 div 20000" by simp
    ultimately show ?thesis by (simp add: exactProgress_div)
  qed
qed

subsection \<open>At most one thing is pending\<close>

lemma single_cases:
  assumes "single s"
  obtains (idle) "timers s = []" "inflight s = []" "length (navs s) \<le> 1"
    | (timer) t where "timers s = [t]" "inflight s = []" "navs s = []"
    | (query) e where "timers s = []" "inflight s = [e]" "navs s = []"
proof (cases "timers s")
  case Nil
  show ?thesis
  proof (cases "inflight s")
    case inil: Nil
    with Nil assms show ?thesis by (intro idle) (simp_all add: single_def)
  next
    case (Cons e es)
    with Nil assms show ?thesis by (intro query [of e]) (simp_all add: single_def)
  qed
next
  case (Cons t ts)
  with assms show ?thesis by (intro timer [of t]) (simp_all add: single_def)
qed

lemma single_pollStatus:
  "timers s = [] \<Longrightarrow> inflight s = [] \<Longrightarrow> navs s = [] \<Longrightarrow> single (pollStatus now s)"
  by (simp add: pollStatus_def single_def effect_defs Let_def)

lemma single_catchBlock:
  "timers s = [] \<Longrightarrow> inflight s = [] \<Longrightarrow> navs s = [] \<Longrightarrow> single (catchBlock st s)"
  by (simp add: catchBlock_def single_def effect_defs)

lemma single_resume:
  "timers s = [] \<Longrightarrow> inflight s = [] \<Longrightarrow> navs s = [] \<Longrightarrow> single (resume e r s)"
  by (cases r)
    (simp_all add: resume_def catchBlock_def single_def effect_defs Let_def split: option.split)

lemma single_runCallback:
  "timers s = [] \<Longrightarrow> inflight s = [] \<Longrightarrow> navs s = [] \<Longrightarrow> single (runCallback cb now s)"
  by (cases cb) (simp_all add: runCallback_def single_pollStatus, simp_all add: single_def effect_defs)

lemma single_clearTimeout: "single s \<Longrightarrow> single (clearTimeout i s)"
  using length_filter_le [of "\<lambda>t. fst t \<noteq> i" "timers s"]
  by (simp add: single_def clearTimeout_def del: length_filter_le)

lemma single_cleanup: "single s \<Longrightarrow> single (cleanup s)"
proof -
  assume s: "single s"
  then have "single (s\<lparr>isMounted := False\<rparr>)" by (simp add: single_def)
  with s show ?thesis
    by (simp add: cleanup_def Let_def single_clearTimeout split: option.split)
qed

lemma single_step: "single s \<Longrightarrow> single (step ev s)"
proof (cases ev)
  case (Fire i now)
  assume s: "single s"
  then show ?thesis
  proof (cases rule: single_cases)
    case (timer t)
    obtain j ms cb where t: "t = (j, ms, cb)" by (cases t)
    show ?thesis
    proof (cases "j = i")
      case True
      with timer t have "step ev s = runCallback cb now (clearTimeout i s)"
        by (simp add: Fire step_def fireTimer_def)
      moreover from timer t True have "single (runCallback cb now (clearTimeout i s))"
        by (intro single_runCallback) (simp_all add: clearTimeout_def)
      ultimately show ?thesis by simp
    next
      case False
      with timer t s show ?thesis by (simp add: Fire step_def fireTimer_def)
    qed
  qed (use s in \<open>simp_all add: Fire step_def fireTimer_def\<close>)
next
  case (Respond r)
  assume s: "single s"
  then show ?thesis
  proof (cases rule: single_cases)
    case (query e)
    then have "step ev s = resume e r (s\<lparr>inflight := []\<rparr>)" by (simp add: Respond step_def)
    moreover from query have "single (resume e r (s\<lparr>inflight := []\<rparr>))"
      by (intro single_resume) simp_all
    ultimately show ?thesis by simp
  qed (use s in \<open>simp_all add: Respond step_def\<close>)
next
  case Cleanup
  then show "single s \<Longrightarrow> single (step ev s)" by (simp add: step_def single_cleanup)
qed

lemma single_exec: "single s \<Longrightarrow> single (exec evs s)"
  by (induction evs arbitrary: s) (simp_all add: single_step)

lemma single_mount: "single (mount reportId t0 t1 (initial t))"
  by (simp add: mount_def Let_def single_pollStatus initial_def)
    (simp add: single_def effect_defs)

subsection \<open>Once nothing is pending, nothing happens\<close>

lemma settled_step:
  assumes "timers s = []" "inflight s = []"
  shows "timers (step ev s) = [] \<and> inflight (step ev s) = [] \<and> navs (step ev s) = navs s
    \<and> queries (step ev s) = queries s \<and> progress (step ev s) = progress s
    \<and> toasts (step ev s) = toasts s"
  using assms
  by (cases ev)
    (simp_all add: step_def fireTimer_def cleanup_def clearTimeout_def Let_def split: option.split)

lemma settled_exec:
  assumes "timers s = []" "inflight s = []"
  shows "timers (exec evs s) = [] \<and> inflight (exec evs s) = [] \<and> navs (exec evs s) = navs s
    \<and> queries (exec evs s) = queries s \<and> progress (exec evs s) = progress s
    \<and> toasts (exec evs s) = toasts s"
  using assms
proof (induction evs arbitrary: s)
  case Nil
  then show ?case by simp
next
  case (Cons ev evs)
  from settled_step [OF Cons.prems, of ev] Cons.IH [of "step ev s"] show ?case by simp
qed

lemma unmounted_response:
  assumes "\<not> isMounted s" "r \<noteq> Rejected (Some 404)" "r \<noteq> Rejected (Some 400)"
  shows "navs (step (Respond r) s) = navs s \<and> toasts (step (Respond r) s) = toasts s \<and>
    progress (step (Respond r) s) = progress s \<and> timers (step (Respond r) s) = timers s \<and>
    queries (step (Respond r) s) = queries s"
  using assms
  by (cases r) (auto simp: step_def resume_def catchBlock_def split: list.splits)

lemma queries_step:
  assumes "queries (step ev s) \<noteq> queries s"
  shows "\<exists>i now. ev = Fire i now \<and> now - startTimeRef s \<le> 60000"
proof (cases ev)
  case (Fire i now)
  with assms show ?thesis
    by (auto simp: loop_defs effect_defs Let_def split: option.splits callback.splits if_splits)
next
  case (Respond r)
  have "queries (resume e r u) = queries u" for e u
    by (cases r) (auto simp: resume_def catchBlock_def effect_defs Let_def split: option.splits)
  with assms Respond show ?thesis by (auto simp: step_def split: list.splits)
next
  case Cleanup
  with assms show ?thesis
    by (auto simp: step_def cleanup_def clearTimeout_def Let_def split: option.splits if_splits)
qed

lemma fatal_step:
  assumes "inflight s = [e]" "timers s = []" "c = 404 \<or> c = 400"
  shows "navs (step (Respond (Rejected (Some c))) s) = navs s @ [''scan-error'']"
    "toasts (step (Respond (Rejected (Some c))) s) =
      toasts s @ [''Analysis failed: Report not found or invalid.'']"
    "queries (step (Respond (Rejected (Some c))) s) = queries s"
    "timers (step (Respond (Rejected (Some c))) s) = []"
    "inflight (step (Respond (Rejected (Some c))) s) = []"
  using assms by (auto simp: step_def resume_def catchBlock_def effect_defs)

lemma winding_down_step:
  assumes "winding_down s"
  shows "winding_down (step ev s) \<and> queries (step ev s) = queries s"
proof (cases ev)
  case (Fire i now)
  show ?thesis
  proof (cases "find (\<lambda>t. fst t = i) (timers s)")
    case None
    with assms show ?thesis by (simp add: Fire step_def fireTimer_def)
  next
    case (Some t)
    obtain j ms cb where t: "t = (j, ms, cb)" by (cases t)
    from Some have "t \<in> set (timers s)" by (auto simp: find_Some_iff)
    with assms t have cb: "cb \<noteq> Poll" by (auto simp: winding_down_def)
    have st: "step ev s = runCallback cb now (clearTimeout i s)"
      using Some t by (simp add: Fire step_def fireTimer_def)
    from assms have "winding_down (clearTimeout i s)"
      by (auto simp: winding_down_def clearTimeout_def)
    with cb show ?thesis
      by (cases cb) (auto simp: st runCallback_def winding_down_def effect_defs)
  qed
next
  case (Respond r)
  with assms show ?thesis by (simp add: step_def winding_down_def)
next
  case Cleanup
  with assms show ?thesis
    by (auto simp: step_def cleanup_def clearTimeout_def winding_down_def Let_def
        split: option.splits)
qed

lemma winding_down_exec:
  "winding_down s \<Longrightarrow> winding_down (exec evs s) \<and> queries (exec evs s) = queries s"
proof (induction evs arbitrary: s)
  case Nil
  then show ?case by simp
next
  case (Cons ev evs)
  from winding_down_step [OF Cons.prems, of ev] Cons.IH [of "step ev s"] show ?case by simp
qed

lemma terminal_answer:
  assumes "single s" "inflight s \<noteq> []" "rs_status r = Some st"
    "toLowerCase st = ''completed'' \<or> toLowerCase st = ''failed''"
  shows "winding_down (step (Respond (Resolved r)) s) \<and>
    queries (step (Respond (Resolved r)) s) = queries s"
proof -
  from assms(1) obtain e where s: "timers s = []" "inflight s = [e]"
    using assms(2) by (cases rule: single_cases) simp_all
  with assms(3,4) show ?thesis
    by (auto simp: step_def resume_def winding_down_def effect_defs Let_def)
qed

subsection \<open>The scripted run\<close>

lemma drive_idle: "inflight s = [] \<Longrightarrow> drive script now s = s"
  by (cases script) auto

lemma resume_mounted:
  assumes "isMounted s"
  obtains (poll) p where "resume e r s = schedulePoll (s\<lparr>progress := p\<rparr>)"
        "p = progress s \<or> p = max (estimatedProgress e) 10"
    | (delayed) scr u where "resume e r s = setTimeout (Navigate scr) 500 u"
        "u = s\<lparr>progress := 100\<rparr> \<or> (\<exists>m. u = toast_error m s)"
    | (fatal) "resume e r s =
        setCurrentScreen ''scan-error'' (toast_error ''Analysis failed: Report not found or invalid.'' s)"
proof (cases r)
  case (Rejected st)
  show ?thesis
  proof (cases "st = Some 404 \<or> st = Some 400")
    case True
    with Rejected show ?thesis by (intro fatal) (simp add: resume_def catchBlock_def)
  next
    case False
    with Rejected assms have "resume e r s = schedulePoll (s\<lparr>progress := progress s\<rparr>)"
      by (simp add: resume_def catchBlock_def)
    then show ?thesis by (rule poll) simp
  qed
next
  case (Resolved rs)
  show ?thesis
  proof (cases "rs_status rs")
    case None
    with Resolved assms have "resume e r s = schedulePoll (s\<lparr>progress := progress s\<rparr>)"
      by (simp add: resume_def catchBlock_def)
    then show ?thesis by (rule poll) simp
  next
    case (Some st)
    consider "toLowerCase st = ''processing''" | "toLowerCase st = ''completed''"
      | "toLowerCase st = ''failed''"
      | "toLowerCase st \<noteq> ''processing''" "toLowerCase st \<noteq> ''completed''"
        "toLowerCase st \<noteq> ''failed''"
      by blast
    then show ?thesis
    proof cases
      case 1
      with Resolved Some assms show ?thesis
        by (intro poll [of "max (estimatedProgress e) 10"]) (simp_all add: resume_def)
    next
      case 2
      with Resolved Some assms show ?thesis
        by (intro delayed [of "''report-result''" "s\<lparr>progress := 100\<rparr>"]) (simp_all add: resume_def)
    next
      case 3
      with Resolved Some assms show ?thesis
        by (intro delayed [of "''scan-error''" "toast_error (failureMessage rs) s"])
          (auto simp add: resume_def)
    next
      case 4
      with Resolved Some assms have "resume e r s = schedulePoll (s\<lparr>progress := progress s\<rparr>)"
        by (simp add: resume_def)
      then show ?thesis by (rule poll) simp
    qed
  qed
qed

lemma fire_scheduled:
  assumes "timers s = [(i, ms, cb)]"
  shows "step (Fire i now) s = runCallback cb now (clearTimeout i s)"
  using assms by (simp add: step_def fireTimer_def)

lemma timers_schedulePoll:
  "timers s = [] \<Longrightarrow> timers (schedulePoll s) = [(nextTimerId s, 2000, Poll)]"
  by (simp add: schedulePoll_def setTimeout_def)

lemma timers_setTimeout:
  "timers s = [] \<Longrightarrow> timers (setTimeout cb ms s) = [(nextTimerId s, ms, cb)]"
  by (simp add: setTimeout_def)

lemma pollStatus_timeout:
  assumes "isMounted s" "60000 < now - startTimeRef s"
  shows "pollStatus now s =
    setCurrentScreen ''scan-error'' (toast_error ''Analysis timed out. Please try again.'' s)"
  using assms by (simp add: pollStatus_def)

lemma pollStatus_query:
  assumes "isMounted s" "now - startTimeRef s \<le> 60000"
  shows "pollStatus now s =
    s\<lparr>inflight := inflight s @ [now - startTimeRef s],
      queries := queries s @ [currentReportId s]\<rparr>"
  using assms by (simp add: pollStatus_def)

lemma drive_outcome:
  assumes "isMounted s" "timers s = []" "navs s = []" "inflight s = [e]"
    "now - startTimeRef s \<le> 60000"
  shows "finished (drive script now s) \<or>
    (starved (drive script now s) \<and> now - startTimeRef s + 2000 * int (length script) \<le> 60000)"
  using assms
proof (induction script arbitrary: s now e)
  case Nil
  then show ?case by (simp add: starved_def)
next
  case (Cons a script)
  obtain r late where a: "a = (r, late)" by (cases a)
  let ?s0 = "s\<lparr>inflight := []\<rparr>"
  have s0: "isMounted ?s0" "timers ?s0 = []" "navs ?s0 = []" "inflight ?s0 = []"
    using Cons.prems by simp_all
  have s1: "step (Respond r) s = resume e r ?s0"
    using Cons.prems by (simp add: step_def)
  from s0(1) show ?case
  proof (cases rule: resume_mounted [where e = e and r = r])
    case (poll p)
    note poll = poll(1)
    let ?u = "?s0\<lparr>progress := p\<rparr>"
    let ?now = "now + 2000 + int late"
    let ?v = "clearTimeout (nextTimerId ?u) (schedulePoll ?u)"
    have u: "timers ?u = []" using Cons.prems by simp
    have v: "isMounted ?v" "timers ?v = []" "navs ?v = []" "inflight ?v = []"
      "startTimeRef ?v = startTimeRef s"
      using Cons.prems by (simp_all add: effect_defs)
    have "step (Fire (nextTimerId s) ?now) (schedulePoll ?u) = pollStatus ?now ?v"
      using fire_scheduled [OF timers_schedulePoll [OF u], of ?now]
      by (simp add: runCallback_def)
    then have d: "drive (a # script) now s = drive script ?now (pollStatus ?now ?v)"
      using Cons.prems by (simp add: a s1 poll Let_def timers_schedulePoll [OF u])
    show ?thesis
    proof (cases "?now - startTimeRef s > 60000")
      case True
      with v have "pollStatus ?now ?v = setCurrentScreen ''scan-error''
          (toast_error ''Analysis timed out. Please try again.'' ?v)"
        by (intro pollStatus_timeout) simp_all
      with v have "finished (pollStatus ?now ?v)" "inflight (pollStatus ?now ?v) = []"
        by (simp_all add: finished_def setCurrentScreen_def toast_error_def)
      then show ?thesis by (simp add: d drive_idle)
    next
      case False
      let ?w = "pollStatus ?now ?v"
      from False v have w: "?w = ?v\<lparr>inflight := inflight ?v @ [?now - startTimeRef ?v],
          queries := queries ?v @ [currentReportId ?v]\<rparr>"
        by (intro pollStatus_query) simp_all
      have fw: "isMounted ?w" "timers ?w = []" "navs ?w = []"
        "inflight ?w = [?now - startTimeRef s]" "startTimeRef ?w = startTimeRef s"
        unfolding w using v by simp_all
      have "finished (drive script ?now ?w) \<or>
        (starved (drive script ?now ?w) \<and> ?now - startTimeRef ?w + 2000 * int (length script) \<le> 60000)"
        using False fw by (intro Cons.IH [of ?w "?now - startTimeRef s"]) simp_all
      with fw(5) show ?thesis by (auto simp: d)
    qed
  next
    case (delayed scr u)
    from delayed(2) s0 have u: "isMounted u" "timers u = []" "navs u = []" "inflight u = []"
      by (auto simp: toast_error_def)
    let ?now = "now + 500 + int late"
    let ?f = "setCurrentScreen scr (clearTimeout (nextTimerId u) (setTimeout (Navigate scr) 500 u))"
    have t: "timers (setTimeout (Navigate scr) 500 u) = [(nextTimerId u, 500, Navigate scr)]"
      using u(2) by (rule timers_setTimeout)
    have "step (Fire (nextTimerId u) ?now) (setTimeout (Navigate scr) 500 u) = ?f"
      using fire_scheduled [OF t, of ?now] u(1)
      by (simp add: runCallback_def effect_defs)
    then have "drive (a # script) now s = drive script ?now ?f"
      using Cons.prems by (simp add: a s1 delayed(1) Let_def t)
    moreover have "finished ?f" "inflight ?f = []"
      using u by (simp_all add: finished_def effect_defs)
    ultimately show ?thesis by (simp add: drive_idle)
  next
    case fatal
    let ?f = "setCurrentScreen ''scan-error''
      (toast_error ''Analysis failed: Report not found or invalid.'' ?s0)"
    have "drive (a # script) now s = ?f"
      using Cons.prems by (simp add: a s1 fatal Let_def) (simp add: setCurrentScreen_def toast_error_def)
    moreover have "finished ?f"
      using s0 by (simp add: finished_def setCurrentScreen_def toast_error_def)
    ultimately show ?thesis by simp
  qed
qed

lemma mount_bound:
  assumes "truthy reportId"
  shows "mount reportId t0 t1 s =
    pollStatus t1 (s\<lparr>currentReportId := reportId, isMounted := True, startTimeRef := t0\<rparr>)"
  using assms by (simp add: mount_def)

lemma runLoop_outcome:
  assumes "truthy reportId"
  shows "finished (runLoop reportId t0 d script) \<or>
    (starved (runLoop reportId t0 d script) \<and> length script < 31)"
proof -
  let ?s = "(initial t0)\<lparr>currentReportId := reportId, isMounted := True, startTimeRef := t0\<rparr>"
  let ?now = "t0 + int d"
  have s: "isMounted ?s" "timers ?s = []" "navs ?s = []" "inflight ?s = []"
    "startTimeRef ?s = t0"
    by (simp_all add: initial_def)
  have r: "runLoop reportId t0 d script = drive script ?now (pollStatus ?now ?s)"
    by (simp add: runLoop_def mount_bound [OF assms])
  show ?thesis
  proof (cases "60000 < int d")
    case True
    with s have "pollStatus ?now ?s = setCurrentScreen ''scan-error''
        (toast_error ''Analysis timed out. Please try again.'' ?s)"
      by (intro pollStatus_timeout) simp_all
    with s have "finished (pollStatus ?now ?s)" "inflight (pollStatus ?now ?s) = []"
      by (simp_all add: finished_def setCurrentScreen_def toast_error_def)
    then show ?thesis by (simp add: r drive_idle)
  next
    case False
    let ?w = "pollStatus ?now ?s"
    from False s have w: "?w = ?s\<lparr>inflight := inflight ?s @ [?now - startTimeRef ?s],
        queries := queries ?s @ [currentReportId ?s]\<rparr>"
      by (intro pollStatus_query) simp_all
    have fw: "isMounted ?w" "timers ?w = []" "navs ?w = []" "inflight ?w = [int d]"
      "startTimeRef ?w = t0"
      unfolding w using s by simp_all
    have "finished (drive script ?now ?w) \<or>
      (starved (drive script ?now ?w) \<and> ?now - startTimeRef ?w + 2000 * int (length script) \<le> 60000)"
      using False fw by (intro drive_outcome [of ?w "int d"]) simp_all
    with fw(5) show ?thesis by (auto simp: r)
  qed
qed

subsection \<open>Progress\<close>

lemma shown_mono: "a \<le> b \<Longrightarrow> shown a \<le> shown b"
  using estimatedProgress_mono [of a b] by (simp add: shown_def)

lemma shown_le: "shown e \<le> 90"
  using estimatedProgress_le [of e] by (simp add: shown_def)

lemma progress_inv_later:
  assumes "progress_inv T s" "T \<le> T'"
  shows "progress_inv T' s"
proof -
  from assms(2) have "shown (T - startTimeRef s) \<le> shown (T' - startTimeRef s)"
    by (intro shown_mono) simp
  with assms show ?thesis
    unfolding progress_inv_def by fastforce
qed

lemma progress_inv_settled:
  "single s \<Longrightarrow> progress s \<le> 100 \<Longrightarrow> timers s = [] \<Longrightarrow> inflight s = [] \<Longrightarrow> progress_inv T s"
  by (simp add: progress_inv_def)

lemma progress_inv_respond:
  assumes "progress_inv T s"
  shows "progress_inv T (step (Respond r) s) \<and> progress s \<le> progress (step (Respond r) s)"
proof -
  from assms have single: "single s" and le: "progress s \<le> 100"
    by (simp_all add: progress_inv_def)
  have single': "single (step (Respond r) s)" using single by (rule single_step)
  from single show ?thesis
  proof (cases rule: single_cases)
    case (query e)
    from assms query have e: "e \<le> T - startTimeRef s" "progress s \<le> shown e"
      by (simp_all add: progress_inv_def shown_def)
    let ?u = "s\<lparr>inflight := []\<rparr>"
    have st: "step (Respond r) s = resume e r ?u" using query by (simp add: step_def)
    have sh: "shown e \<le> shown (T - startTimeRef s)" using e(1) by (rule shown_mono)
    show ?thesis
    proof (cases "isMounted s")
      case False
      then have "progress (resume e r ?u) = progress s" "timers (resume e r ?u) = []"
        "inflight (resume e r ?u) = []"
        using query
        by (cases r; simp add: resume_def catchBlock_def effect_defs)+
      with single' le show ?thesis by (simp add: st progress_inv_settled)
    next
      case True
      then have "isMounted ?u" by simp
      then show ?thesis
      proof (cases rule: resume_mounted [where e = e and r = r])
        case (poll p)
        from poll(2) have p: "p = progress s \<or> p = shown e" by (simp add: shown_def)
        note poll = poll(1)
        have "progress (resume e r ?u) = p" "inflight (resume e r ?u) = []"
          "timers (resume e r ?u) = [(nextTimerId s, 2000, Poll)]"
          "startTimeRef (resume e r ?u) = startTimeRef s"
          using query by (simp_all add: poll effect_defs)
        moreover from p e sh shown_le [of "T - startTimeRef s"]
        have "progress s \<le> p" "p \<le> shown (T - startTimeRef s)" "p \<le> 100" by auto
        ultimately show ?thesis using single' by (simp add: st progress_inv_def shown_def)
      next
        case (delayed scr u)
        from delayed(2) have "progress u = 100 \<or> progress u = progress s"
          by (auto simp: toast_error_def)
        moreover have "progress (resume e r ?u) = progress u" "inflight (resume e r ?u) = inflight u"
          "timers (resume e r ?u) = timers u @ [(nextTimerId u, 500, Navigate scr)]"
          by (simp_all add: delayed(1) setTimeout_def)
        moreover from delayed(2) query have "inflight u = []" "timers u = []"
          by (auto simp: toast_error_def)
        ultimately show ?thesis using single' le by (auto simp: st progress_inv_def)
      next
        case fatal
        then have "progress (resume e r ?u) = progress s" "timers (resume e r ?u) = []"
          "inflight (resume e r ?u) = []"
          using query by (simp_all add: effect_defs)
        with single' le show ?thesis by (simp add: st progress_inv_settled)
      qed
    qed
  qed (use assms in \<open>simp_all add: step_def\<close>)
qed

lemma progress_inv_fire:
  assumes "progress_inv T s" "T \<le> now"
  shows "progress_inv now (step (Fire i now) s) \<and> progress s = progress (step (Fire i now) s)"
proof -
  from assms have inv: "progress_inv now s" by (rule progress_inv_later)
  then have single: "single s" and le: "progress s \<le> 100"
    by (simp_all add: progress_inv_def)
  have single': "single (step (Fire i now) s)" using single by (rule single_step)
  from single show ?thesis
  proof (cases rule: single_cases)
    case (timer t)
    obtain j ms cb where t: "t = (j, ms, cb)" by (cases t)
    show ?thesis
    proof (cases "j = i")
      case False
      with timer t inv show ?thesis by (simp add: step_def fireTimer_def)
    next
      case True
      let ?u = "clearTimeout i s"
      have st: "step (Fire i now) s = runCallback cb now ?u"
        using timer t True by (simp add: step_def fireTimer_def)
      have u: "timers ?u = []" "inflight ?u = []" "progress ?u = progress s"
        "startTimeRef ?u = startTimeRef s"
        using timer t True by (simp_all add: clearTimeout_def)
      show ?thesis
      proof (cases cb)
        case Poll
        from inv timer t Poll have "progress s \<le> shown (now - startTimeRef s)"
          by (simp add: progress_inv_def shown_def)
        with u single' le show ?thesis
          by (simp add: st Poll runCallback_def pollStatus_def effect_defs progress_inv_def
              shown_def Let_def)
      next
        case Redirect
        with u single' le show ?thesis
          by (simp add: st runCallback_def effect_defs progress_inv_def)
      next
        case (Navigate scr)
        with u single' le show ?thesis
          by (simp add: st runCallback_def effect_defs progress_inv_def)
      qed
    qed
  qed (use inv in \<open>simp_all add: step_def fireTimer_def\<close>)
qed

lemma progress_inv_cleanup:
  assumes "progress_inv T s"
  shows "progress_inv T (step Cleanup s) \<and> progress s = progress (step Cleanup s)"
proof -
  have "set (timers (cleanup s)) \<subseteq> set (timers s)" "inflight (cleanup s) = inflight s"
    "progress (cleanup s) = progress s" "startTimeRef (cleanup s) = startTimeRef s"
    by (auto simp: cleanup_def clearTimeout_def Let_def split: option.splits)
  moreover from assms have "single (cleanup s)" by (simp add: progress_inv_def single_cleanup)
  ultimately show ?thesis using assms unfolding progress_inv_def step_def by auto
qed

lemma progress_inv_exec:
  assumes "progress_inv T s" "sorted (T # readings evs)"
  shows "progress s \<le> progress (exec evs s) \<and> progress_inv (last (T # readings evs)) (exec evs s)"
  using assms
proof (induction evs arbitrary: T s)
  case Nil
  then show ?case by simp
next
  case (Cons ev evs)
  show ?case
  proof (cases ev)
    case (Fire i now)
    with Cons.prems have "T \<le> now" "sorted (now # readings evs)" by simp_all
    from progress_inv_fire [OF Cons.prems(1) this(1), of i] Cons.IH [OF _ this(2), of "step ev s"]
    show ?thesis by (simp add: Fire)
  next
    case (Respond r)
    with Cons.prems have "sorted (T # readings evs)" by simp
    from progress_inv_respond [OF Cons.prems(1), of r] Cons.IH [OF _ this, of "step ev s"]
    show ?thesis by (auto simp: Respond)
  next
    case Cleanup
    with Cons.prems have "sorted (T # readings evs)" by simp
    from progress_inv_cleanup [OF Cons.prems(1)] Cons.IH [OF _ this, of "step ev s"]
    show ?thesis by (auto simp: Cleanup)
  qed
qed

lemma progress_inv_mount: "progress_inv t1 (mount reportId t0 t1 (initial t))"
proof -
  have "single (mount reportId t0 t1 (initial t))" by (rule single_mount)
  moreover have "0 \<le> shown e" for e by (simp add: shown_def)
  ultimately show ?thesis
    by (auto simp: progress_inv_def mount_def pollStatus_def initial_def effect_defs Let_def)
qed

lemma exec_append: "exec (xs @ ys) s = exec ys (exec xs s)"
  by (induction xs arbitrary: s) simp_all

lemma readings_append: "readings (xs @ ys) = readings xs @ readings ys"
  by (induction xs rule: readings.induct) simp_all

lemma full_progress_step:
  assumes "progress (step ev s) = 100" "progress s \<noteq> 100"
  shows "\<exists>r st. ev = Respond (Resolved r) \<and> rs_status r = Some st \<and> toLowerCase st = ''completed''"
proof (cases ev)
  case (Fire i now)
  with assms show ?thesis
    by (auto simp: loop_defs effect_defs Let_def split: option.splits callback.splits if_splits)
next
  case (Respond r)
  show ?thesis
  proof (cases r)
    case (Rejected e)
    with assms Respond show ?thesis
      by (auto simp: step_def resume_def catchBlock_def effect_defs split: list.splits if_splits)
  next
    case (Resolved rs)
    have "max (estimatedProgress e) 10 \<noteq> 100" for e
      using estimatedProgress_le [of e] by simp
    with assms Respond Resolved show ?thesis
      by (auto simp: step_def resume_def catchBlock_def effect_defs Let_def
          split: list.splits if_splits option.splits)
  qed
next
  case Cleanup
  with assms show ?thesis
    by (auto simp: step_def cleanup_def clearTimeout_def Let_def split: option.splits if_splits)
qed

subsection \<open>What the provider restores and what it writes\<close>

lemma restoreSaved_screen:
  "currentScreen (restoreSaved tabToo s) =
     (case localStorage s ''mediguide_current_screen'' of
        None \<Rightarrow> ''home''
      | Some scr \<Rightarrow> if scr = [] \<or> authOnly scr then ''home'' else scr)"
  by (simp add: restoreSaved_def authOnly_def Let_def split: option.split)

lemma restoreSaved_tab:
  assumes "localStorage s ''mediguide_current_screen'' = Some scr" "scr \<noteq> []" "\<not> authOnly scr"
    "localStorage s ''mediguide_active_tab'' = Some tab" "tab \<noteq> []"
  shows "activeTab (restoreSaved tabToo s) = tab"
  using assms by (simp add: restoreSaved_def authOnly_def Let_def)

lemma no_session_onboarding:
  assumes "c \<noteq> Checked True True"
  shows "currentScreen (initializeAuth_checked c s) = ''onboarding'' \<and>
    \<not> isLoggedIn (initializeAuth_checked c s) \<and> \<not> isCheckingAuth (initializeAuth_checked c s)"
  using assms by (cases c) (auto simp: initializeAuth_checked_def split: bool.splits)

lemma signed_out_clears:
  "currentScreen (onAuthStateChange SIGNED_OUT session s) = ''onboarding'' \<and>
   activeTab (onAuthStateChange SIGNED_OUT session s) = ''home'' \<and>
   \<not> isLoggedIn (onAuthStateChange SIGNED_OUT session s) \<and>
   localStorage (onAuthStateChange SIGNED_OUT session s) ''mediguide_current_screen'' = None \<and>
   localStorage (onAuthStateChange SIGNED_OUT session s) ''mediguide_active_tab'' = None \<and>
   localStorage (commit (onAuthStateChange SIGNED_OUT session s)) =
     localStorage (onAuthStateChange SIGNED_OUT session s)"
  by (simp add: onAuthStateChange_def removeItem_def commit_def persistEffect_def Let_def)

text \<open>Whatever the storage held, application start with a valid session ends on the
  tab \<^verbatim>\<open>home\<close>, and with that tab saved.\<close>

lemma appStart_tab:
  "activeTab (appStart synced storage) = ''home'' \<and>
   localStorage (appStart synced storage) ''mediguide_active_tab'' = Some ''home''"
  by (cases synced; cases "storage ''mediguide_current_screen''")
    (simp_all add: appStart_def appInitial_def app_defs Let_def)

lemma setItems_step:
  "\<exists>ws. setItems (app_step ev s) = setItems s @ ws \<and>
     (\<forall>(k, v) \<in> set ws. k = ''mediguide_current_screen'' \<longrightarrow>
        ev = Commit \<and> isLoggedIn s \<and> v = currentScreen s \<and> \<not> authOnly v)"
  by (cases ev)
    (auto simp: app_defs authOnly_def Let_def split: option.splits auth_check.splits bool.splits)

lemma screen_ok_step: "screen_ok s \<Longrightarrow> screen_ok (app_step ev s)"
  using setItems_step [of ev s] by (auto simp: screen_ok_def)

lemma screen_ok_exec: "screen_ok s \<Longrightarrow> screen_ok (app_exec evs s)"
  by (induction evs arbitrary: s) (simp_all add: screen_ok_step)

lemma stored_ok_step: "stored_ok s \<Longrightarrow> stored_ok (app_step ev s)"
  by (cases ev)
    (auto simp: stored_ok_def app_defs authOnly_def Let_def
      split: option.splits auth_check.splits bool.splits if_splits)

lemma stored_ok_exec: "stored_ok s \<Longrightarrow> stored_ok (app_exec evs s)"
  by (induction evs arbitrary: s) (simp_all add: stored_ok_step)

section \<open>The claims\<close>

text \<open>
  \<^bold>\<open>C1.\<close> Exactly one terminal navigation. A poll loop started on a report id and
  fed a script of answers ends with exactly one call of \<^verbatim>\<open>setCurrentScreen\<close> and
  nothing pending, unless the script runs out while a query is still outstanding, which
  needs fewer than 31 answers (every answered query is followed by a poll at least 2000 ms
  later, and a poll later than 60000 ms ends the loop). Once the navigation is made, no
  further event, the cleanup included, adds a query or a navigation. Under any sequence of
  events at all, at any clock readings, at most one navigation is made, and once an
  outstanding query is answered \<^verbatim>\<open>completed\<close> or \<^verbatim>\<open>failed\<close> no query is
  issued again.
\<close>

theorem exactly_once_terminal:
  assumes "truthy reportId"
  shows "(let f = runLoop reportId t0 d script in
            ((length (navs f) = 1 \<and> timers f = [] \<and> inflight f = []) \<or>
             (navs f = [] \<and> timers f = [] \<and> length (inflight f) = 1 \<and> length script < 31)) \<and>
            (navs f \<noteq> [] \<longrightarrow>
               navs (exec evs f) = navs f \<and> queries (exec evs f) = queries f \<and>
               timers (exec evs f) = [] \<and> inflight (exec evs f) = [])) \<and>
         (let s = exec evs' (mount reportId t0 t1 (initial t)) in
            length (navs s) \<le> 1 \<and>
            (inflight s \<noteq> [] \<and> rs_status r = Some st \<and>
             (toLowerCase st = ''completed'' \<or> toLowerCase st = ''failed'') \<longrightarrow>
               queries (exec evs (step (Respond (Resolved r)) s)) = queries s))"
proof -
  let ?f = "runLoop reportId t0 d script"
  let ?s = "exec evs' (mount reportId t0 t1 (initial t))"
  from runLoop_outcome [OF assms, of t0 d script]
  have 1: "(length (navs ?f) = 1 \<and> timers ?f = [] \<and> inflight ?f = []) \<or>
      (navs ?f = [] \<and> timers ?f = [] \<and> length (inflight ?f) = 1 \<and> length script < 31)"
    by (simp add: finished_def starved_def)
  have 2: "navs (exec evs ?f) = navs ?f \<and> queries (exec evs ?f) = queries ?f \<and>
      timers (exec evs ?f) = [] \<and> inflight (exec evs ?f) = []" if "navs ?f \<noteq> []"
  proof -
    from 1 that have "timers ?f = []" "inflight ?f = []" by auto
    from settled_exec [OF this, of evs] show ?thesis by simp
  qed
  have single: "single ?s" by (intro single_exec single_mount)
  then have 3: "length (navs ?s) \<le> 1" by (simp add: single_def)
  have 4: "queries (exec evs (step (Respond (Resolved r)) ?s)) = queries ?s"
    if "inflight ?s \<noteq> []" "rs_status r = Some st"
      "toLowerCase st = ''completed'' \<or> toLowerCase st = ''failed''"
  proof -
    from terminal_answer [OF single that]
    have "winding_down (step (Respond (Resolved r)) ?s)"
      "queries (step (Respond (Resolved r)) ?s) = queries ?s"
      by simp_all
    with winding_down_exec [of "step (Respond (Resolved r)) ?s" evs] show ?thesis by simp
  qed
  from 1 2 3 4 show ?thesis unfolding Let_def by blast
qed

theorem exactly_once_terminal_witness:
  "truthy (Some ''r1'') \<and>
   navs (runLoop (Some ''r1'') 0 0
     [(Resolved \<lparr>rs_status = Some ''completed'', rs_progress = None,
        rs_error_message = None\<rparr>, 120)]) = [''report-result''] \<and>
   navs (exec [Respond (Rejected None), Fire 1 5000, Cleanup]
     (runLoop (Some ''r1'') 0 0
       [(Resolved \<lparr>rs_status = Some ''completed'', rs_progress = None,
          rs_error_message = None\<rparr>, 120)])) = [''report-result''] \<and>
   length (navs (exec [Respond (Rejected (Some 404)), Cleanup, Fire 1 9]
     (mount (Some ''r1'') 0 0 (initial 0)))) \<le> 1 \<and>
   inflight (exec [] (mount (Some ''r1'') 0 0 (initial 0))) \<noteq> [] \<and>
   toLowerCase ''Completed'' = ''completed'' \<and>
   queries (exec [Respond (Rejected None), Fire 1 5000, Cleanup]
     (step (Respond (Resolved \<lparr>rs_status = Some ''Completed'', rs_progress = None,
        rs_error_message = None\<rparr>)) (exec [] (mount (Some ''r1'') 0 0 (initial 0)))))
     = queries (exec [] (mount (Some ''r1'') 0 0 (initial 0)))"
proof -
  let ?script = "[(Resolved \<lparr>rs_status = Some ''completed'', rs_progress = None,
        rs_error_message = None\<rparr>, 120 :: nat)]"
  let ?evs = "[Respond (Rejected None), Fire 1 5000, Cleanup]"
  let ?r = "\<lparr>rs_status = Some ''Completed'', rs_progress = None, rs_error_message = None\<rparr>"
  have t: "truthy (Some ''r1'')" by (simp add: truthy_def)
  have n: "navs (runLoop (Some ''r1'') 0 0 ?script) = [''report-result'']"
    by (simp add: run_defs)
  have i: "inflight (exec [] (mount (Some ''r1'') 0 0 (initial 0))) \<noteq> []"
    by (simp add: run_defs)
  have l: "toLowerCase ''Completed'' = ''completed''"
    by (simp add: toLowerCase_def lower_char_def char_of_eq_iff)
  have r: "rs_status ?r = Some ''Completed''" by simp
  note a = exactly_once_terminal [OF t, of 0 0 ?script ?evs
      "[Respond (Rejected (Some 404)), Cleanup, Fire 1 9]" 0 0 ?r "''Completed''"]
  note b = exactly_once_terminal [OF t, of 0 0 ?script ?evs "[]" 0 0 ?r "''Completed''"]
  have 1: "navs (exec ?evs (runLoop (Some ''r1'') 0 0 ?script)) = [''report-result'']"
    using a n unfolding Let_def by auto
  have 2: "length (navs (exec [Respond (Rejected (Some 404)), Cleanup, Fire 1 9]
     (mount (Some ''r1'') 0 0 (initial 0)))) \<le> 1"
    using a unfolding Let_def by blast
  have 3: "queries (exec ?evs (step (Respond (Resolved ?r))
      (exec [] (mount (Some ''r1'') 0 0 (initial 0)))))
     = queries (exec [] (mount (Some ''r1'') 0 0 (initial 0)))"
    using b i l r unfolding Let_def by blast
  from t n 1 2 3 i l show ?thesis by blast
qed

text \<open>
  \<^bold>\<open>C2.\<close> Cancellation and a fatal error. The cleanup runs while the
  first query is in flight, and the query then fails with HTTP status 404: the
  \<^verbatim>\<open>catch\<close> block tests \<^verbatim>\<open>error.status\<close>
  before it looks at \<^verbatim>\<open>isMounted\<close>, so the toast is shown and
  \<^verbatim>\<open>setCurrentScreen('scan-error')\<close> is called although the effect is
  no longer mounted. (Lemma \<open>unmounted_response\<close> is the part that holds: after
  the cleanup a status body or a non-fatal error changes neither progress nor screen.)
\<close>

theorem fatal_error_after_cleanup:
  "\<not> isMounted (exec [Cleanup, Respond (Rejected (Some 404))]
       (mount (Some ''r1'') 0 0 (initial 0))) \<and>
   navs (exec [Cleanup, Respond (Rejected (Some 404))] (mount (Some ''r1'') 0 0 (initial 0)))
     = [''scan-error''] \<and>
   toasts (exec [Cleanup, Respond (Rejected (Some 404))] (mount (Some ''r1'') 0 0 (initial 0)))
     = [''Analysis failed: Report not found or invalid.'']"
  by (simp add: mount_def initial_def truthy_def loop_defs effect_defs)

text \<open>
  \<^bold>\<open>C3.\<close> Timeout before every query. In a mounted loop
  \<^verbatim>\<open>pollStatus\<close> compares the time since the start with 60000 ms
  before anything else: above it, the loop shows the timeout toast and navigates to
  \<^verbatim>\<open>scan-error\<close> without a query, whatever the rest of the state (the
  last progress included); otherwise it issues the query. No event issues a query except a
  timer firing \<^verbatim>\<open>pollStatus\<close> at most 60000 ms after the start.
\<close>

theorem timeout_checked_before_query:
  assumes "isMounted s"
  shows "(60000 < now - startTimeRef s \<longrightarrow>
            navs (pollStatus now s) = navs s @ [''scan-error''] \<and>
            toasts (pollStatus now s) = toasts s @ [''Analysis timed out. Please try again.''] \<and>
            queries (pollStatus now s) = queries s \<and>
            inflight (pollStatus now s) = inflight s \<and>
            timers (pollStatus now s) = timers s \<and>
            progress (pollStatus now s) = progress s) \<and>
         (now - startTimeRef s \<le> 60000 \<longrightarrow>
            queries (pollStatus now s) = queries s @ [currentReportId s] \<and>
            inflight (pollStatus now s) = inflight s @ [now - startTimeRef s] \<and>
            navs (pollStatus now s) = navs s) \<and>
         (queries (step ev s) \<noteq> queries s \<longrightarrow>
            (\<exists>i now'. ev = Fire i now' \<and> now' - startTimeRef s \<le> 60000))"
  using assms queries_step [of ev s]
  by (auto simp: pollStatus_def effect_defs)

theorem timeout_checked_before_query_witness:
  "isMounted (mount (Some ''r1'') 0 0 (initial 0)) \<and>
   60000 < 60001 - startTimeRef (mount (Some ''r1'') 0 0 (initial 0)) \<and>
   navs (pollStatus 60001 (mount (Some ''r1'') 0 0 (initial 0))) = [''scan-error''] \<and>
   queries (pollStatus 60001 (mount (Some ''r1'') 0 0 (initial 0))) = [Some ''r1''] \<and>
   2000 - startTimeRef (mount (Some ''r1'') 0 0 (initial 0)) \<le> 60000 \<and>
   queries (pollStatus 2000 (mount (Some ''r1'') 0 0 (initial 0))) = [Some ''r1'', Some ''r1''] \<and>
   queries (step (Fire 1 2000) (step (Respond (Rejected None)) (mount (Some ''r1'') 0 0 (initial 0))))
     \<noteq> queries (step (Respond (Rejected None)) (mount (Some ''r1'') 0 0 (initial 0))) \<and>
   (\<exists>i now'. (Fire 1 2000 :: event) = Fire i now' \<and>
      now' - startTimeRef (step (Respond (Rejected None)) (mount (Some ''r1'') 0 0 (initial 0)))
        \<le> 60000)"
proof -
  let ?s = "mount (Some ''r1'') 0 0 (initial 0)"
  let ?u = "step (Respond (Rejected None)) ?s"
  have s: "isMounted ?s" "startTimeRef ?s = 0" "navs ?s = []" "queries ?s = [Some ''r1'']"
    "currentReportId ?s = Some ''r1''"
    by (simp_all add: run_defs)
  have u: "isMounted ?u" by (simp add: run_defs)
  have v: "startTimeRef ?u = 0" by (simp add: run_defs)
  have q: "queries (step (Fire 1 2000) ?u) \<noteq> queries ?u" by (simp add: run_defs)
  from timeout_checked_before_query [OF s(1), of 60001 Cleanup]
    timeout_checked_before_query [OF s(1), of 2000 Cleanup]
    timeout_checked_before_query [OF u, of 0 "Fire 1 2000"] s q v
  show ?thesis by simp
qed

text \<open>
  \<^bold>\<open>C4.\<close> Timeout against failure, as stated. A run that times out and a
  run whose first answer is \<^verbatim>\<open>failed\<close> with the error message
  \<^verbatim>\<open>Analysis timed out. Please try again.\<close> make the same navigation,
  to \<^verbatim>\<open>scan-error\<close>, and show the same toast: nothing the caller can
  observe tells them apart.
\<close>

theorem timeout_indistinct_counterexample:
  "navs (runLoop (Some ''r1'') 0 0
      [(Resolved \<lparr>rs_status = Some ''processing'', rs_progress = None,
          rs_error_message = None\<rparr>, 58001)]) = [''scan-error''] \<and>
   navs (runLoop (Some ''r1'') 0 0
      [(Resolved \<lparr>rs_status = Some ''failed'', rs_progress = None,
          rs_error_message = Some ''Analysis timed out. Please try again.''\<rparr>, 0)])
     = [''scan-error''] \<and>
   toasts (runLoop (Some ''r1'') 0 0
      [(Resolved \<lparr>rs_status = Some ''processing'', rs_progress = None,
          rs_error_message = None\<rparr>, 58001)]) =
   toasts (runLoop (Some ''r1'') 0 0
      [(Resolved \<lparr>rs_status = Some ''failed'', rs_progress = None,
          rs_error_message = Some ''Analysis timed out. Please try again.''\<rparr>, 0)])"
  by (simp add: runLoop_def mount_def initial_def truthy_def loop_defs effect_defs
      toLowerCase_def lower_char_def failureMessage_def Let_def)

text \<open>
  \<^bold>\<open>C4.\<close> Timeout against failure, as the code has it. The timeout, a
  fatal query error and a server-reported failure all navigate to
  \<^verbatim>\<open>scan-error\<close>; they differ only in the toast, which is one fixed
  text for the timeout, another fixed text for a fatal error, and for a reported failure the
  server's message when it is present and not empty, else a third fixed text.
\<close>

theorem timeout_and_failure_share_screen:
  assumes "isMounted s" "timers s = []"
  shows "(60000 < now - startTimeRef s \<longrightarrow>
            navs (pollStatus now s) = navs s @ [''scan-error''] \<and>
            toasts (pollStatus now s) = toasts s @ [''Analysis timed out. Please try again.'']) \<and>
         (c = 404 \<or> c = 400 \<longrightarrow>
            navs (resume e (Rejected (Some c)) s) = navs s @ [''scan-error''] \<and>
            toasts (resume e (Rejected (Some c)) s) =
              toasts s @ [''Analysis failed: Report not found or invalid.'']) \<and>
         (rs_status r = Some st \<and> toLowerCase st = ''failed'' \<longrightarrow>
            toasts (resume e (Resolved r) s) = toasts s @ [failureMessage r] \<and>
            navs (step (Fire (nextTimerId s) now') (resume e (Resolved r) s)) =
              navs s @ [''scan-error'']) \<and>
         (truthy (rs_error_message r) \<longrightarrow> rs_error_message r = Some (failureMessage r)) \<and>
         (\<not> truthy (rs_error_message r) \<longrightarrow>
            failureMessage r = ''Report processing failed. Please try again.'')"
  using assms
  by (auto simp: loop_defs effect_defs failureMessage_def truthy_def split: option.splits)

theorem timeout_and_failure_share_screen_witness:
  "isMounted (mount (Some ''r1'') 0 0 (initial 0)) \<and>
   timers (mount (Some ''r1'') 0 0 (initial 0)) = [] \<and>
   60000 < 60001 - startTimeRef (mount (Some ''r1'') 0 0 (initial 0)) \<and>
   navs (pollStatus 60001 (mount (Some ''r1'') 0 0 (initial 0))) = [''scan-error''] \<and>
   toasts (pollStatus 60001 (mount (Some ''r1'') 0 0 (initial 0)))
     = [''Analysis timed out. Please try again.''] \<and>
   navs (resume 0 (Rejected (Some 404)) (mount (Some ''r1'') 0 0 (initial 0))) = [''scan-error''] \<and>
   toLowerCase ''failed'' = ''failed'' \<and>
   truthy (Some ''OCR failed'') \<and>
   toasts (resume 0 (Resolved \<lparr>rs_status = Some ''failed'', rs_progress = None,
       rs_error_message = Some ''OCR failed''\<rparr>) (mount (Some ''r1'') 0 0 (initial 0)))
     = [''OCR failed''] \<and>
   navs (step (Fire 1 500) (resume 0 (Resolved \<lparr>rs_status = Some ''failed'', rs_progress = None,
       rs_error_message = Some ''OCR failed''\<rparr>) (mount (Some ''r1'') 0 0 (initial 0))))
     = [''scan-error''] \<and>
   \<not> truthy (Some '''') \<and>
   failureMessage \<lparr>rs_status = Some ''failed'', rs_progress = None, rs_error_message = Some ''''\<rparr>
     = ''Report processing failed. Please try again.''"
proof -
  let ?s = "mount (Some ''r1'') 0 0 (initial 0)"
  let ?r = "\<lparr>rs_status = Some ''failed'', rs_progress = None,
       rs_error_message = Some ''OCR failed''\<rparr>"
  let ?q = "\<lparr>rs_status = Some ''failed'', rs_progress = None, rs_error_message = Some ''''\<rparr>"
  have h: "isMounted ?s" "timers ?s = []" by (simp_all add: run_defs)
  have i: "startTimeRef ?s = 0" "navs ?s = []" "toasts ?s = []" "nextTimerId ?s = 1"
    by (simp_all add: run_defs)
  have l: "toLowerCase ''failed'' = ''failed''" by (simp add: toLowerCase_def lower_char_def)
  have t: "truthy (Some ''OCR failed'')" "\<not> truthy (Some '''')" by (simp_all add: truthy_def)
  from timeout_and_failure_share_screen [OF h, of 60001 404 0 ?r "''failed''" 500]
    timeout_and_failure_share_screen [OF h, of 60001 404 0 ?q "''failed''" 500] h i l t
  show ?thesis by simp
qed

text \<open>
  \<^bold>\<open>C5.\<close> A \<^verbatim>\<open>processing\<close> answer, as stated. A query issued 14000 ms
  after the start is answered \<^verbatim>\<open>processing\<close>: the loop sets the progress to 62,
  where \<^verbatim>\<open>max(min(floor(elapsed / 20000 * 90), 90), 10)\<close> is 63. The quotient
  14000 / 20000 is rounded to the double just below 0.7, and its product with 90 to the
  double just below 63.
\<close>

theorem processing_formula_counterexample:
  "progress (exec
      [Respond (Resolved \<lparr>rs_status = Some ''processing'', rs_progress = None,
         rs_error_message = None\<rparr>),
       Fire 1 14000,
       Respond (Resolved \<lparr>rs_status = Some ''processing'', rs_progress = None,
         rs_error_message = None\<rparr>)]
      (mount (Some ''r1'') 0 0 (initial 0))) = 62 \<and>
   max (min \<lfloor>(14000 :: rat) / 20000 * 90\<rfloor> 90) 10 = (63 :: int)"
  using estimatedProgress_points by (simp add: run_defs)

text \<open>
  \<^bold>\<open>C5.\<close> A \<^verbatim>\<open>processing\<close> answer, as the code has it. When the query
  issued at \<open>now\<close> is answered with a status that lower-cases to \<^verbatim>\<open>processing\<close>,
  the loop makes no navigation and shows no toast, and leaves one new timer pending,
  \<^verbatim>\<open>pollStatus\<close> after 2000 ms. It sets the progress from \<open>elapsed = now - start\<close>
  as read before the query was issued, not when the answer arrives, with the quotient and
  the product each rounded to a double: the value is
  \<^verbatim>\<open>max(min(floor(elapsed * 90 / 20000), 90), 10)\<close> in exact arithmetic for every
  \<open>elapsed\<close> but 14000, and 62 there.
\<close>

theorem processing_response:
  assumes "isMounted s" "inflight s = []" "now - startTimeRef s \<le> 60000"
    "rs_status r = Some st" "toLowerCase st = ''processing''"
  shows "let s' = step (Respond (Resolved r)) (pollStatus now s) in
     progress s' =
       max (min \<lfloor>to_double (to_double (of_int (now - startTimeRef s) / 20000) * 90)\<rfloor> 90) 10 \<and>
     (now - startTimeRef s \<noteq> 14000 \<longrightarrow>
        progress s' = max (min ((now - startTimeRef s) * 90 div 20000) 90) 10) \<and>
     (now - startTimeRef s = 14000 \<longrightarrow> progress s' = 62) \<and>
     navs s' = navs s \<and> toasts s' = toasts s \<and> isMounted s' \<and> inflight s' = [] \<and>
     queries s' = queries s @ [currentReportId s] \<and>
     timers s' = timers s @ [(nextTimerId s, 2000, Poll)] \<and>
     pollingRef s' = Some (nextTimerId s)"
proof -
  let ?e = "now - startTimeRef s"
  let ?s' = "step (Respond (Resolved r)) (pollStatus now s)"
  have p: "progress ?s' = max (estimatedProgress ?e) 10"
    using assms by (simp add: pollStatus_def step_def resume_def effect_defs Let_def)
  have 1: "progress ?s' = max (min ((now - startTimeRef s) * 90 div 20000) 90) 10"
    if "?e \<noteq> 14000"
    using clamped_exact [OF that] by (simp add: p exactProgress_div)
  have 2: "progress ?s' = 62" if "?e = 14000"
    using estimatedProgress_points by (simp add: p that)
  have 3: "navs ?s' = navs s \<and> toasts ?s' = toasts s \<and> isMounted ?s' \<and> inflight ?s' = [] \<and>
     queries ?s' = queries s @ [currentReportId s] \<and>
     timers ?s' = timers s @ [(nextTimerId s, 2000, Poll)] \<and>
     pollingRef ?s' = Some (nextTimerId s)"
    using assms by (simp add: pollStatus_def step_def resume_def effect_defs Let_def)
  from p 1 2 3 show ?thesis unfolding Let_def estimatedProgress_def by blast
qed

theorem processing_response_witness:
  "isMounted ((initial 0)\<lparr>isMounted := True\<rparr>) \<and>
   inflight ((initial 0)\<lparr>isMounted := True\<rparr>) = [] \<and>
   14000 - startTimeRef ((initial 0)\<lparr>isMounted := True\<rparr>) \<le> 60000 \<and>
   4000 - startTimeRef ((initial 0)\<lparr>isMounted := True\<rparr>) \<le> 60000 \<and>
   toLowerCase ''PROCESSING'' = ''processing'' \<and>
   14000 - startTimeRef ((initial 0)\<lparr>isMounted := True\<rparr>) = 14000 \<and>
   progress (step (Respond (Resolved \<lparr>rs_status = Some ''PROCESSING'', rs_progress = Some 55,
       rs_error_message = None\<rparr>)) (pollStatus 14000 ((initial 0)\<lparr>isMounted := True\<rparr>)))
     = 62 \<and>
   4000 - startTimeRef ((initial 0)\<lparr>isMounted := True\<rparr>) \<noteq> 14000 \<and>
   progress (step (Respond (Resolved \<lparr>rs_status = Some ''PROCESSING'', rs_progress = Some 55,
       rs_error_message = None\<rparr>)) (pollStatus 4000 ((initial 0)\<lparr>isMounted := True\<rparr>)))
     = 18 \<and>
   timers (step (Respond (Resolved \<lparr>rs_status = Some ''PROCESSING'', rs_progress = Some 55,
       rs_error_message = None\<rparr>)) (pollStatus 4000 ((initial 0)\<lparr>isMounted := True\<rparr>)))
     = [(1, 2000, Poll)]"
proof -
  let ?s = "(initial 0)\<lparr>isMounted := True\<rparr>"
  let ?r = "\<lparr>rs_status = Some ''PROCESSING'', rs_progress = Some 55, rs_error_message = None\<rparr>"
  have h: "isMounted ?s" "inflight ?s = []"
    "rs_status ?r = Some ''PROCESSING''" "toLowerCase ''PROCESSING'' = ''processing''"
    by (simp_all add: initial_def toLowerCase_def lower_char_def char_of_eq_iff)
  have a: "14000 - startTimeRef ?s \<le> 60000" "14000 - startTimeRef ?s = 14000"
    and b: "4000 - startTimeRef ?s \<le> 60000" "4000 - startTimeRef ?s \<noteq> 14000"
    by (simp_all add: initial_def)
  have i: "timers ?s = []" "nextTimerId ?s = 1" "startTimeRef ?s = 0" by (simp_all add: initial_def)
  note A = processing_response [OF h(1,2) a(1) h(3,4), unfolded Let_def]
  note B = processing_response [OF h(1,2) b(1) h(3,4), unfolded Let_def]
  have 1: "progress (step (Respond (Resolved ?r)) (pollStatus 14000 ?s)) = 62"
    using A a(2) by blast
  have "progress (step (Respond (Resolved ?r)) (pollStatus 4000 ?s))
      = max (min ((4000 - startTimeRef ?s) * 90 div 20000) 90) 10"
    using B b(2) by blast
  then have 2: "progress (step (Respond (Resolved ?r)) (pollStatus 4000 ?s)) = 18"
    by (simp add: i)
  have "timers (step (Respond (Resolved ?r)) (pollStatus 4000 ?s))
      = timers ?s @ [(nextTimerId ?s, 2000, Poll)]"
    using B by blast
  then have 3: "timers (step (Respond (Resolved ?r)) (pollStatus 4000 ?s)) = [(1, 2000, Poll)]"
    by (simp add: i)
  from h(1,2,4) a b 1 2 3 show ?thesis by blast
qed

text \<open>
  \<^bold>\<open>C6.\<close> Progress never goes back, as stated. The clock is read as 14000 ms after
  the start for one query and, set back, as 4000 ms for the next; both are answered
  \<^verbatim>\<open>processing\<close>. The progress goes from 62 to 18: line 64 sets the new estimate
  without a look at the value shown.
\<close>

theorem progress_decreases_counterexample:
  "progress (exec
      [Respond (Resolved \<lparr>rs_status = Some ''processing'', rs_progress = None,
         rs_error_message = None\<rparr>),
       Fire 1 14000,
       Respond (Resolved \<lparr>rs_status = Some ''processing'', rs_progress = None,
         rs_error_message = None\<rparr>)]
      (mount (Some ''r1'') 0 0 (initial 0))) = 62 \<and>
   progress (exec
      [Respond (Resolved \<lparr>rs_status = Some ''processing'', rs_progress = None,
         rs_error_message = None\<rparr>),
       Fire 1 14000,
       Respond (Resolved \<lparr>rs_status = Some ''processing'', rs_progress = None,
         rs_error_message = None\<rparr>),
       Fire 2 4000,
       Respond (Resolved \<lparr>rs_status = Some ''processing'', rs_progress = None,
         rs_error_message = None\<rparr>)]
      (mount (Some ''r1'') 0 0 (initial 0))) = 18"
  using estimatedProgress_points by (simp add: run_defs)

text \<open>
  \<^bold>\<open>C6.\<close> Progress never goes back, as the code has it. Along any sequence of events
  of one effect run whose clock readings do not decrease, the progress after a prefix is at
  most the progress after the whole sequence; and a step takes the progress to 100 from
  another value only when it is the answer of a query whose status lower-cases to
  \<^verbatim>\<open>completed\<close>.
\<close>

theorem progress_monotonic:
  assumes "sorted (t1 # readings (xs @ ys))"
  shows "progress (exec xs (mount reportId t0 t1 (initial t)))
           \<le> progress (exec (xs @ ys) (mount reportId t0 t1 (initial t))) \<and>
         (progress (step ev s) = 100 \<and> progress s \<noteq> 100 \<longrightarrow>
            (\<exists>r st. ev = Respond (Resolved r) \<and> rs_status r = Some st \<and>
               toLowerCase st = ''completed''))"
proof -
  let ?s0 = "mount reportId t0 t1 (initial t)"
  from assms have x: "sorted (t1 # readings xs)"
    and y: "sorted (last (t1 # readings xs) # readings ys)"
    by (simp_all add: readings_append sorted_append)
  from progress_inv_exec [OF progress_inv_mount x]
  have "progress_inv (last (t1 # readings xs)) (exec xs ?s0)" by simp
  from progress_inv_exec [OF this y]
  have "progress (exec xs ?s0) \<le> progress (exec ys (exec xs ?s0))" by simp
  with full_progress_step [of ev s] show ?thesis by (auto simp: exec_append)
qed

theorem progress_monotonic_witness:
  "sorted (0 # readings ([Respond (Resolved \<lparr>rs_status = Some ''processing'', rs_progress = None,
       rs_error_message = None\<rparr>), Fire 1 14000] @
     [Respond (Resolved \<lparr>rs_status = Some ''processing'', rs_progress = None,
       rs_error_message = None\<rparr>), Fire 2 16000])) \<and>
   progress (exec [Respond (Resolved \<lparr>rs_status = Some ''processing'', rs_progress = None,
       rs_error_message = None\<rparr>), Fire 1 14000] (mount (Some ''r1'') 0 0 (initial 0)))
     \<le> progress (exec ([Respond (Resolved \<lparr>rs_status = Some ''processing'', rs_progress = None,
       rs_error_message = None\<rparr>), Fire 1 14000] @
     [Respond (Resolved \<lparr>rs_status = Some ''processing'', rs_progress = None,
       rs_error_message = None\<rparr>), Fire 2 16000]) (mount (Some ''r1'') 0 0 (initial 0))) \<and>
   progress (step (Respond (Resolved \<lparr>rs_status = Some ''completed'', rs_progress = None,
       rs_error_message = None\<rparr>)) (mount (Some ''r1'') 0 0 (initial 0))) = 100 \<and>
   progress (mount (Some ''r1'') 0 0 (initial 0)) \<noteq> 100 \<and>
   (\<exists>r st. Respond (Resolved \<lparr>rs_status = Some ''completed'', rs_progress = None,
       rs_error_message = None\<rparr>) = Respond (Resolved r) \<and> rs_status r = Some st \<and>
       toLowerCase st = ''completed'')"
proof -
  let ?p = "Respond (Resolved \<lparr>rs_status = Some ''processing'', rs_progress = None,
       rs_error_message = None\<rparr>)"
  let ?c = "Respond (Resolved \<lparr>rs_status = Some ''completed'', rs_progress = None,
       rs_error_message = None\<rparr>)"
  let ?s = "mount (Some ''r1'') 0 0 (initial 0)"
  have srt: "sorted (0 # readings ([?p, Fire 1 14000] @ [?p, Fire 2 16000]))" by simp
  have c: "progress (step ?c ?s) = 100" "progress ?s \<noteq> 100" by (simp_all add: run_defs)
  from progress_monotonic [OF srt, of "Some ''r1''" 0 0 ?c ?s] srt c
  show ?thesis by simp
qed

text \<open>
  \<^bold>\<open>C7.\<close> Transient errors are retried. When the outstanding query of a
  mounted loop fails with an error whose status is neither 404 nor 400, progress,
  navigations and toasts stay as they are and one timer is left pending,
  \<^verbatim>\<open>pollStatus\<close> after 2000 ms; when that timer fires later than
  60000 ms after the start the loop times out without a query, and otherwise it issues the
  next query.
\<close>

theorem transient_error_retries:
  assumes "isMounted s" "inflight s = elapsed # rest" "timers s = []"
    "error_status \<noteq> Some 404" "error_status \<noteq> Some 400"
  shows "let s' = step (Respond (Rejected error_status)) s in
     progress s' = progress s \<and> navs s' = navs s \<and> toasts s' = toasts s \<and>
     queries s' = queries s \<and> isMounted s' \<and> inflight s' = rest \<and>
     timers s' = [(nextTimerId s, 2000, Poll)] \<and> pollingRef s' = Some (nextTimerId s) \<and>
     (60000 < now - startTimeRef s \<longrightarrow>
        navs (step (Fire (nextTimerId s) now) s') = navs s @ [''scan-error''] \<and>
        queries (step (Fire (nextTimerId s) now) s') = queries s) \<and>
     (now - startTimeRef s \<le> 60000 \<longrightarrow>
        navs (step (Fire (nextTimerId s) now) s') = navs s \<and>
        queries (step (Fire (nextTimerId s) now) s') = queries s @ [currentReportId s])"
  using assms
  by (simp add: loop_defs effect_defs Let_def)

theorem transient_error_retries_witness:
  "isMounted (mount (Some ''r1'') 0 0 (initial 0)) \<and>
   inflight (mount (Some ''r1'') 0 0 (initial 0)) = [0] \<and>
   timers (mount (Some ''r1'') 0 0 (initial 0)) = [] \<and>
   navs (step (Respond (Rejected (Some 503))) (mount (Some ''r1'') 0 0 (initial 0))) = [] \<and>
   timers (step (Respond (Rejected (Some 503))) (mount (Some ''r1'') 0 0 (initial 0)))
     = [(1, 2000, Poll)] \<and>
   navs (step (Fire 1 60001)
     (step (Respond (Rejected (Some 503))) (mount (Some ''r1'') 0 0 (initial 0))))
     = [''scan-error''] \<and>
   queries (step (Fire 1 2000)
     (step (Respond (Rejected (Some 503))) (mount (Some ''r1'') 0 0 (initial 0))))
     = [Some ''r1'', Some ''r1'']"
proof -
  let ?s = "mount (Some ''r1'') 0 0 (initial 0)"
  have h: "isMounted ?s" "inflight ?s = [0]" "timers ?s = []" "Some (503 :: int) \<noteq> Some 404"
    "Some (503 :: int) \<noteq> Some 400"
    by (simp_all add: run_defs)
  have i: "navs ?s = []" "queries ?s = [Some ''r1'']" "nextTimerId ?s = 1" "startTimeRef ?s = 0"
    "currentReportId ?s = Some ''r1''"
    by (simp_all add: run_defs)
  from transient_error_retries [OF h, of 60001] transient_error_retries [OF h, of 2000] h i
  show ?thesis by (simp add: Let_def)
qed

text \<open>
  \<^bold>\<open>C8.\<close> A fatal error ends the loop. In any state an effect run can
  reach with a query outstanding, a failure of that query with status 404 or 400 shows the
  toast and navigates to \<^verbatim>\<open>scan-error\<close> at once, leaves no timer and
  no query pending, and after it no sequence of events issues another query or makes another
  navigation.
\<close>

theorem fatal_error_stops_polling:
  assumes "s = exec evs (mount reportId t0 t1 (initial t))" "inflight s \<noteq> []"
    "c = 404 \<or> c = 400"
  shows "let s' = step (Respond (Rejected (Some c))) s in
     navs s' = [''scan-error''] \<and>
     toasts s' = toasts s @ [''Analysis failed: Report not found or invalid.''] \<and>
     timers s' = [] \<and> inflight s' = [] \<and> queries s' = queries s \<and>
     queries (exec evs' s') = queries s \<and> navs (exec evs' s') = [''scan-error'']"
proof -
  have "single s" unfolding assms(1) by (intro single_exec single_mount)
  then obtain e where s: "timers s = []" "inflight s = [e]" "navs s = []"
    using assms(2) by (cases rule: single_cases) simp_all
  let ?s' = "step (Respond (Rejected (Some c))) s"
  note f = fatal_step [OF s(2) s(1) assms(3)]
  from settled_exec [OF f(4) f(5), of evs'] f s(3) show ?thesis by (simp add: Let_def)
qed

theorem fatal_error_stops_polling_witness:
  "inflight (exec [] (mount (Some ''r1'') 0 0 (initial 0))) \<noteq> [] \<and>
   navs (step (Respond (Rejected (Some 404))) (exec [] (mount (Some ''r1'') 0 0 (initial 0))))
     = [''scan-error''] \<and>
   queries (exec [Fire 1 0, Respond (Rejected None), Fire 1 2000, Fire 2 4000]
     (step (Respond (Rejected (Some 404))) (exec [] (mount (Some ''r1'') 0 0 (initial 0)))))
     = queries (exec [] (mount (Some ''r1'') 0 0 (initial 0)))"
proof -
  let ?s = "exec [] (mount (Some ''r1'') 0 0 (initial 0))"
  have h: "?s = exec [] (mount (Some ''r1'') 0 0 (initial 0))" "inflight ?s \<noteq> []"
    "(404 :: int) = 404 \<or> (404 :: int) = 400"
    by (simp_all add: run_defs)
  from fatal_error_stops_polling [OF h,
      of "[Fire 1 0, Respond (Rejected None), Fire 1 2000, Fire 2 4000]"] h(2)
  show ?thesis by (simp add: Let_def)
qed

text \<open>
  \<^bold>\<open>C9.\<close> Restoring the last tab. With a valid session and both the saved screen
  and the saved tab \<^verbatim>\<open>history\<close>, application start restores the screen, but not
  the tab: \<^verbatim>\<open>setIsLoggedIn(true)\<close> is committed while the profile request is
  outstanding, the persistence effect then stores the current tab \<^verbatim>\<open>home\<close> over
  the saved one, and \<^verbatim>\<open>initializeAuth\<close> reads that value back (lemma
  \<open>appStart_tab\<close>: so it is for every storage). Lemmas \<open>restoreSaved_screen\<close>,
  \<open>restoreSaved_tab\<close>, \<open>no_session_onboarding\<close> and \<open>signed_out_clears\<close>
  are the parts that hold.
\<close>

theorem last_tab_lost_on_start:
  "currentScreen (appStart None
      [''mediguide_current_screen'' \<mapsto> ''history'', ''mediguide_active_tab'' \<mapsto> ''history''])
     = ''history'' \<and>
   activeTab (appStart None
      [''mediguide_current_screen'' \<mapsto> ''history'', ''mediguide_active_tab'' \<mapsto> ''history''])
     = ''home'' \<and>
   localStorage (appStart None
      [''mediguide_current_screen'' \<mapsto> ''history'', ''mediguide_active_tab'' \<mapsto> ''history''])
      ''mediguide_active_tab'' = Some ''home''"
  by (simp add: appStart_def appInitial_def app_defs Let_def)

text \<open>
  \<^bold>\<open>C10.\<close> The saved screen is never an auth-only screen. A step of the
  provider calls \<^verbatim>\<open>setItem\<close> on the saved-screen key only when it is
  a commit, the user is logged in, and the value is the current screen, which is none of
  \<^verbatim>\<open>splash\<close>, \<^verbatim>\<open>onboarding\<close>,
  \<^verbatim>\<open>login\<close>, \<^verbatim>\<open>signup\<close>; so no call made in
  any run stores such a screen, and if the storage did not hold one at the start it never
  does.
\<close>

theorem saved_screen_never_auth_only:
  "((k, v) \<in> set (drop (length (setItems s)) (setItems (app_step ev s))) \<and>
      k = ''mediguide_current_screen'' \<longrightarrow>
        ev = Commit \<and> isLoggedIn s \<and> v = currentScreen s \<and> \<not> authOnly v) \<and>
   ((k, v) \<in> set (setItems (app_exec evs (appInitial storage))) \<and>
      k = ''mediguide_current_screen'' \<longrightarrow> \<not> authOnly v) \<and>
   ((\<forall>w. storage ''mediguide_current_screen'' = Some w \<longrightarrow> \<not> authOnly w) \<longrightarrow>
      (\<forall>w. localStorage (app_exec evs (appInitial storage)) ''mediguide_current_screen'' = Some w
         \<longrightarrow> \<not> authOnly w))"
proof -
  obtain ws where ws: "setItems (app_step ev s) = setItems s @ ws"
    "\<forall>(k, v) \<in> set ws. k = ''mediguide_current_screen'' \<longrightarrow>
        ev = Commit \<and> isLoggedIn s \<and> v = currentScreen s \<and> \<not> authOnly v"
    using setItems_step [of ev s] by blast
  then have 1: "(k, v) \<in> set (drop (length (setItems s)) (setItems (app_step ev s))) \<and>
      k = ''mediguide_current_screen'' \<longrightarrow>
        ev = Commit \<and> isLoggedIn s \<and> v = currentScreen s \<and> \<not> authOnly v"
    by auto
  have "screen_ok (appInitial storage)" by (simp add: screen_ok_def appInitial_def)
  then have "screen_ok (app_exec evs (appInitial storage))" by (rule screen_ok_exec)
  then have 2: "(k, v) \<in> set (setItems (app_exec evs (appInitial storage))) \<and>
      k = ''mediguide_current_screen'' \<longrightarrow> \<not> authOnly v"
    by (auto simp: screen_ok_def)
  have 3: "\<forall>w. localStorage (app_exec evs (appInitial storage)) ''mediguide_current_screen'' = Some w
         \<longrightarrow> \<not> authOnly w"
    if "\<forall>w. storage ''mediguide_current_screen'' = Some w \<longrightarrow> \<not> authOnly w"
  proof -
    from that have "stored_ok (appInitial storage)" by (simp add: stored_ok_def appInitial_def)
    then have "stored_ok (app_exec evs (appInitial storage))" by (rule stored_ok_exec)
    then show ?thesis by (simp add: stored_ok_def)
  qed
  from 1 2 3 show ?thesis by blast
qed

theorem saved_screen_never_auth_only_witness:
  "(''mediguide_current_screen'', ''history'') \<in> set (drop
      (length (setItems ((appInitial Map.empty)\<lparr>currentScreen := ''history'', isLoggedIn := True\<rparr>)))
      (setItems (app_step Commit
         ((appInitial Map.empty)\<lparr>currentScreen := ''history'', isLoggedIn := True\<rparr>)))) \<and>
   isLoggedIn ((appInitial Map.empty)\<lparr>currentScreen := ''history'', isLoggedIn := True\<rparr>) \<and>
   (''mediguide_current_screen'', ''report-result'') \<in> set (setItems (app_exec
      [Commit, AuthChecked (Checked True True), Commit, InitProfileFetched None, Commit]
      (appInitial [''mediguide_current_screen'' \<mapsto> ''report-result'']))) \<and>
   \<not> authOnly ''report-result'' \<and>
   localStorage (app_exec [AuthEvent SIGNED_IN True, Commit, SignInResumed True None, Commit]
      (appInitial [''mediguide_current_screen'' \<mapsto> ''family''])) ''mediguide_current_screen''
     = Some ''family'' \<and>
   \<not> authOnly ''family''"
proof -
  let ?s = "(appInitial Map.empty)\<lparr>currentScreen := ''history'', isLoggedIn := True\<rparr>"
  let ?evs = "[Commit, AuthChecked (Checked True True), Commit, InitProfileFetched None, Commit]"
  let ?st = "[''mediguide_current_screen'' \<mapsto> ''report-result'']"
  let ?evs' = "[AuthEvent SIGNED_IN True, Commit, SignInResumed True None, Commit]"
  let ?st' = "[''mediguide_current_screen'' \<mapsto> ''family'']"
  have a: "(''mediguide_current_screen'', ''history'') \<in> set (drop (length (setItems ?s))
      (setItems (app_step Commit ?s)))"
    by (simp add: appInitial_def app_defs Let_def)
  have b: "(''mediguide_current_screen'', ''report-result'')
      \<in> set (setItems (app_exec ?evs (appInitial ?st)))"
    by (simp add: appInitial_def app_defs Let_def)
  have c: "\<forall>w. ?st' ''mediguide_current_screen'' = Some w \<longrightarrow> \<not> authOnly w"
    by (simp add: authOnly_def)
  have d: "localStorage (app_exec ?evs' (appInitial ?st')) ''mediguide_current_screen''
      = Some ''family''"
    by (simp add: appInitial_def app_defs Let_def)
  have e: "\<not> authOnly ''report-result''"
    using saved_screen_never_auth_only
      [of "''mediguide_current_screen''" "''report-result''" ?s Commit ?evs ?st] b
    by blast
  have f: "\<not> authOnly ''family''"
    using saved_screen_never_auth_only
      [of "''mediguide_current_screen''" "''history''" ?s Commit ?evs' ?st'] c d
    by blast
  have g: "isLoggedIn ?s"
    using saved_screen_never_auth_only
      [of "''mediguide_current_screen''" "''history''" ?s Commit ?evs ?st] a
    by blast
  from a b d e f g show ?thesis by blast
qed

end
